theory Spec2Isabelle
  imports Main "HOL-Library.Word"
begin

unbundle bit_operations_syntax

section \<open>Timonel v0.7: data model\<close>

text \<open>
  The source is \<^verbatim>\<open>tml-bootloader-v0.7-2018-09-09.c\<close>, an I2C bootloader for the
  ATtiny85.  \<^verbatim>\<open>typedef uint8_t byte; typedef uint16_t word;\<close> become 8-bit and 16-bit
  machine words; \<open>int\<close> on this target is 16 bits wide as well, so every integer
  expression of the source is evaluated in 16-bit two's complement.
\<close>

type_synonym byte = "8 word"
type_synonym word16 = "16 word"

text \<open>
  The self-programming unit of the controller, as the three avr-libc macros drive it.
  Every macro call is recorded, with the address it was issued at.
\<close>

datatype spm_op = PageErase word16 | PageFill word16 word16 | PageWrite word16

text \<open>
  The global variables of the program, followed by the hardware it talks to: program
  memory (\<open>flash\<close>), the temporary page buffer of the self-programming unit
  (\<open>spm_temp\<close>), the log of issued self-programming operations (\<open>spm_log\<close>), the bytes
  handed to \<^verbatim>\<open>UsiTwiTransmitByte\<close> (\<open>tx\<close>) and the LED pin (\<open>led\<close>).

  The arrays \<^verbatim>\<open>command[18]\<close> and \<^verbatim>\<open>pageBuffer[64]\<close> are maps from index to byte.  The
  source never checks an index, and a store at or beyond the declared size is undefined
  in C: what it overwrites depends on the build.  The two handlers that store at an
  index the master controls, \<^verbatim>\<open>ReceiveEvent\<close> and \<^verbatim>\<open>RequestEvent\<close>, therefore return an
  option: \<open>None\<close> when a store of theirs falls outside its array, in which case the
  model says nothing about the state the program is in afterwards.
\<close>

record state =
  command :: "nat \<Rightarrow> byte"
  commandLength :: byte
  ledToggleTimer :: word16
  statusRegister :: byte
  i2cDly :: word16
  exitDly :: byte
  pageBuffer :: "nat \<Rightarrow> byte"
  flashPageAddr :: word16
  pageIX :: byte
  tplJumpLowByte :: byte
  tplJumpHighByte :: byte
  flash :: "word16 \<Rightarrow> byte"
  spm_temp :: "nat \<Rightarrow> byte"
  spm_log :: "spm_op list"
  tx :: "byte list"
  led :: bool

text \<open>
  The operation codes come from \<^verbatim>\<open>nb-libs/nb-i2c-cmd.h\<close>, which is not part of the
  sources at hand; they are parameters of the model.  A C \<^verbatim>\<open>switch\<close> does not compile
  with two equal case labels, which is \<open>opcodes_distinct\<close>.
\<close>

record opcodes =
  GETTMNLV :: byte
  EXITTMNL :: byte
  DELFLASH :: byte
  STPGADDR :: byte
  WRITPAGE :: byte
  INITTINY :: byte
  UNKNOWNC :: byte

definition opcodes_distinct :: "opcodes \<Rightarrow> bool" where
  "opcodes_distinct oc =
     distinct [GETTMNLV oc, EXITTMNL oc, DELFLASH oc, STPGADDR oc, WRITPAGE oc, INITTINY oc]"

subsection \<open>Constants of the source\<close>

definition PAGE_SIZE :: nat where "PAGE_SIZE = 64"
definition RXDATASIZE :: nat where "RXDATASIZE = 8"
definition TOGGLETIME :: word16 where "TOGGLETIME = 0xFFFF"
definition I2CDLYTIME :: word16 where "I2CDLYTIME = 0x7FFF"
definition CYCLESTOEXIT :: byte where "CYCLESTOEXIT = 80"
definition COMMAND_SIZE :: nat where "COMMAND_SIZE = RXDATASIZE * 2 + 2"

definition SR_INIT_1 :: nat where "SR_INIT_1 = 0"
definition SR_INIT_2 :: nat where "SR_INIT_2 = 1"
definition SR_DEL_FLASH :: nat where "SR_DEL_FLASH = 2"
definition SR_APP_READY :: nat where "SR_APP_READY = 3"
definition SR_EXIT_TML :: nat where "SR_EXIT_TML = 4"

text \<open>
  \<^verbatim>\<open>TIMONEL_START\<close> is set by the makefile and is the parameter \<open>T\<close> of everything
  below.  The source refuses to compile unless it is a multiple of the page size
  (\<^verbatim>\<open>#if TIMONEL_START % PAGE_SIZE != 0 #error\<close>).
\<close>

definition page_aligned :: "word16 \<Rightarrow> bool" where
  "page_aligned a \<longleftrightarrow> a AND 63 = 0"

subsection \<open>Self-programming primitives\<close>

text \<open>
  Modelled from the spec: the macros \<^verbatim>\<open>boot_page_erase\<close>, \<^verbatim>\<open>boot_page_fill\<close>,
  \<^verbatim>\<open>boot_page_write\<close> and \<^verbatim>\<open>boot_spm_busy_wait\<close> belong to avr-libc.  The spec names
  them "erase page at address", "stage word into page buffer", "commit page buffer to
  address" and the "busy" query.  A page is 64 bytes; the unit takes the page from the
  upper ten address bits and the word within the page from bits 5..1.  Programming can
  only clear bits, so a commit leaves in each cell the conjunction of what was there
  and what was staged (on an erased page: what was staged), and it empties the staging
  buffer.  Waiting for "not busy" changes nothing.
\<close>

definition page_base :: "word16 \<Rightarrow> word16" where
  "page_base a = a AND NOT 63"

definition boot_page_erase :: "word16 \<Rightarrow> state \<Rightarrow> state" where
  "boot_page_erase a s =
     s\<lparr>flash := (\<lambda>x. if page_base x = page_base a then 0xFF else flash s x),
       spm_log := spm_log s @ [PageErase a]\<rparr>"

definition boot_page_fill :: "word16 \<Rightarrow> word16 \<Rightarrow> state \<Rightarrow> state" where
  "boot_page_fill a w s =
     (let i = unat (a AND 62) in
      s\<lparr>spm_temp := (spm_temp s)(i := ucast w, Suc i := ucast (drop_bit 8 w)),
        spm_log := spm_log s @ [PageFill a w]\<rparr>)"

definition boot_page_write :: "word16 \<Rightarrow> state \<Rightarrow> state" where
  "boot_page_write a s =
     s\<lparr>flash := (\<lambda>x. if page_base x = page_base a
                      then flash s x AND spm_temp s (unat (x AND 63)) else flash s x),
       spm_temp := (\<lambda>_. 0xFF),
       spm_log := spm_log s @ [PageWrite a]\<rparr>"

section \<open>Flash writer\<close>

text \<open>
  An array store, \<^verbatim>\<open>pageBuffer[i] = v\<close>, at an index inside the array.  The flash writer
  stores at the constant indices 0, 1, 62, 63 and at loop counters that stay below
  \<^verbatim>\<open>PAGE_SIZE\<close>; the one store at an index that the code does not bound,
  \<^verbatim>\<open>pageBuffer[pageIX]\<close> in \<^verbatim>\<open>RequestEvent\<close>, is \<open>WRITPAGE_step\<close> below, which has no
  result when the index is outside.
\<close>

definition pageBuffer_store :: "nat \<Rightarrow> byte \<Rightarrow> state \<Rightarrow> state" where
  "pageBuffer_store i v s = s\<lparr>pageBuffer := (pageBuffer s)(i := v)\<rparr>"

text \<open>\<^verbatim>\<open>for (byte i = 0; i < PAGE_SIZE; i++) pageBuffer[i] = 0xff;\<close>\<close>

definition ClearPageBuffer :: "state \<Rightarrow> state" where
  "ClearPageBuffer s = fold (\<lambda>i. pageBuffer_store i 0xFF) [0..<PAGE_SIZE] s"

text \<open>
  \<^verbatim>\<open>pageBuffer[0] = (byte)((0xC000 + (TIMONEL_START / 2) - 1) & 0xff);\<close>
  \<^verbatim>\<open>pageBuffer[1] = (byte)((0xC000 + (TIMONEL_START / 2) - 1) >> 8);\<close>
\<close>

definition reset_vector :: "word16 \<Rightarrow> word16" where
  "reset_vector T = 0xC000 + (T div 2) - 1"

definition FixResetVector :: "word16 \<Rightarrow> state \<Rightarrow> state" where
  "FixResetVector T s =
     (let s1 = pageBuffer_store 0 (ucast (reset_vector T AND 0xFF)) s
      in pageBuffer_store 1 (ucast (drop_bit 8 (reset_vector T))) s1)"

text \<open>
  \<^verbatim>\<open>word jumpOffset = (~(TIMONEL_START - (((((applJumpHighByte << 8) + applJumpLowByte)
     + 1) & 0x0FFF) << 1)) >> 1); jumpOffset++;\<close>
  The operands are promoted to \<open>int\<close>; the right shift of the (possibly negative)
  complement is the arithmetic shift avr-gcc performs.
\<close>

definition jumpOffset :: "word16 \<Rightarrow> byte \<Rightarrow> byte \<Rightarrow> word16" where
  "jumpOffset T applJumpLowByte applJumpHighByte =
     signed_drop_bit 1
       (NOT (T - push_bit 1
          (((push_bit 8 (ucast applJumpHighByte) + ucast applJumpLowByte) + 1) AND 0x0FFF)))
     + 1"

definition CalculateTrampoline :: "word16 \<Rightarrow> byte \<Rightarrow> byte \<Rightarrow> state \<Rightarrow> state" where
  "CalculateTrampoline T applJumpLowByte applJumpHighByte s =
     (let jo = jumpOffset T applJumpLowByte applJumpHighByte in
      s\<lparr>tplJumpLowByte := ucast (jo AND 0xFF),
        tplJumpHighByte := ucast (drop_bit 8 (jo AND 0xF00)) + 0xC0\<rparr>)"

text \<open>
  \<^verbatim>\<open>for (byte i = 0; i < PAGE_SIZE; i += 2) { word tempWord = ((pageBuffer[i + 1] << 8)
     | pageBuffer[i]); boot_spm_busy_wait(); boot_page_fill(pageAddress + i, tempWord); }\<close>
  The counter stays below 66, so it never wraps as a byte.
\<close>

function FlashRaw_fill :: "word16 \<Rightarrow> nat \<Rightarrow> state \<Rightarrow> state" where
  "FlashRaw_fill pageAddress i s =
     (if i < PAGE_SIZE then
        FlashRaw_fill pageAddress (i + 2)
          (boot_page_fill (pageAddress + of_nat i)
             (push_bit 8 (ucast (pageBuffer s (i + 1))) OR ucast (pageBuffer s i)) s)
      else s)"
  by pat_completeness auto
termination
  by (relation "measure (\<lambda>(pageAddress, i, s). PAGE_SIZE - i)") auto

definition FlashRaw :: "word16 \<Rightarrow> state \<Rightarrow> state" where
  "FlashRaw pageAddress s = boot_page_write pageAddress (FlashRaw_fill pageAddress 0 s)"

text \<open>
  \<^verbatim>\<open>CreateTrampoline\<close>: when the page address lies below the trampoline page, point it
  there, blank the first 62 bytes of the buffer, put the trampoline bytes last and
  write the page.
\<close>

definition CreateTrampoline :: "word16 \<Rightarrow> state \<Rightarrow> state" where
  "CreateTrampoline T s =
     (if flashPageAddr s < T - of_nat PAGE_SIZE then
        (let s1 = s\<lparr>flashPageAddr := T - of_nat PAGE_SIZE\<rparr>;
             s2 = fold (\<lambda>i. pageBuffer_store i 0xFF) [0..<PAGE_SIZE - 2] s1;
             s3 = pageBuffer_store 62 (tplJumpLowByte s2) s2;
             s4 = pageBuffer_store 63 (tplJumpHighByte s3) s3
         in FlashRaw (flashPageAddr s4) s4)
      else s)"

text \<open>
  \<^verbatim>\<open>FlashPage\<close>, in the order of the source: mask the address; on page 0 compute the
  trampoline from the first two buffer bytes and replace them; on the trampoline page
  put the trampoline bytes last; return without writing at or above
  \<^verbatim>\<open>TIMONEL_START\<close>; write; after page 0 create the trampoline page and reset
  \<^verbatim>\<open>flashPageAddr\<close> to \<^verbatim>\<open>RESET_PAGE\<close>.
\<close>

definition FlashPage :: "word16 \<Rightarrow> word16 \<Rightarrow> state \<Rightarrow> state" where
  "FlashPage T pageAddress s =
     (let pa = pageAddress AND NOT (of_nat PAGE_SIZE - 1);
          s1 = (if pa = 0
                then FixResetVector T (CalculateTrampoline T (pageBuffer s 0) (pageBuffer s 1) s)
                else s);
          s2 = (if pa = T - of_nat PAGE_SIZE
                then pageBuffer_store 63 (tplJumpHighByte s1)
                       (pageBuffer_store 62 (tplJumpLowByte s1) s1)
                else s1)
      in if pa \<ge> T then s2
         else (let s3 = FlashRaw pa s2
               in if pa = 0 then (CreateTrampoline T s3)\<lparr>flashPageAddr := 0\<rparr> else s3))"

text \<open>
  The erase loop of \<^verbatim>\<open>DeleteFlash\<close>:
  \<^verbatim>\<open>while (address < TIMONEL_START) { boot_page_erase(address); address += PAGE_SIZE; }\<close>
  The address is a 16-bit word and wraps; for a start address that is not a multiple
  of the page size the loop need not end, so its result is optional.
\<close>

partial_function (option) DeleteFlash_loop :: "word16 \<Rightarrow> word16 \<Rightarrow> state \<Rightarrow> state option" where
  "DeleteFlash_loop T address s =
     (if address < T
      then DeleteFlash_loop T (address + of_nat PAGE_SIZE) (boot_page_erase address s)
      else Some s)"

definition DeleteFlash :: "word16 \<Rightarrow> state \<Rightarrow> state option" where
  "DeleteFlash T s =
     (let s1 = ClearPageBuffer s;
          s2 = FixResetVector T s1;
          s3 = boot_page_erase 0 s2;
          s4 = FlashRaw 0 s3;
          address = of_nat PAGE_SIZE;
          s5 = FlashPage T address s4
      in DeleteFlash_loop T address s5)"

section \<open>Command dispatcher\<close>

text \<open>
  \<^verbatim>\<open>ReceiveEvent(commandBytes)\<close> copies the bytes the bus layer received into
  \<^verbatim>\<open>command\<close>.  The bus layer is not part of the sources; the bytes it delivers are
  the argument \<open>bs\<close>, and \<^verbatim>\<open>commandBytes\<close> is their number.

  One pass of the loop body, for loop counter \<open>i\<close>: \<^verbatim>\<open>command[i] = UsiTwiReceiveByte()\<close>.
  The source does not compare \<open>i\<close> with the size of \<^verbatim>\<open>command\<close>; the store is defined
  only when \<open>i\<close> is below it, so that a frame of more than \<open>COMMAND_SIZE\<close> bytes has no
  result.
\<close>

definition command_store :: "nat \<Rightarrow> byte \<Rightarrow> state option \<Rightarrow> state option" where
  "command_store i v p =
     (case p of
        None \<Rightarrow> None
      | Some s \<Rightarrow> if i < COMMAND_SIZE then Some (s\<lparr>command := (command s)(i := v)\<rparr>) else None)"

definition ReceiveEvent :: "byte list \<Rightarrow> state \<Rightarrow> state option" where
  "ReceiveEvent bs s =
     fold (\<lambda>i. command_store i (bs ! i)) [0..<length bs]
       (Some (s\<lparr>commandLength := of_nat (length bs)\<rparr>))"

definition UsiTwiTransmitByte :: "byte \<Rightarrow> state \<Rightarrow> state" where
  "UsiTwiTransmitByte b s = s\<lparr>tx := tx s @ [b]\<rparr>"

definition transmit :: "byte list \<Rightarrow> state \<Rightarrow> state" where
  "transmit reply s = fold UsiTwiTransmitByte reply s"

text \<open>
  One pass of the \<^verbatim>\<open>WRITPAGE\<close> loop body, for loop counter \<open>i\<close>: store
  \<^verbatim>\<open>command[i]\<close> at \<^verbatim>\<open>pageBuffer[pageIX]\<close>, add it to \<^verbatim>\<open>reply[1]\<close>, increment
  \<^verbatim>\<open>pageIX\<close>.  The running sum is carried next to the state.  The source does not
  compare \<^verbatim>\<open>pageIX\<close> with \<^verbatim>\<open>PAGE_SIZE\<close>; the store is defined only when \<^verbatim>\<open>pageIX\<close> is below
  it, and the loop has no result otherwise.
\<close>

definition WRITPAGE_step :: "nat \<Rightarrow> (byte \<times> state) option \<Rightarrow> (byte \<times> state) option" where
  "WRITPAGE_step i p =
     (case p of
        None \<Rightarrow> None
      | Some (reply1, s) \<Rightarrow>
          if unat (pageIX s) < PAGE_SIZE then
            Some (reply1 + command s i,
                  (pageBuffer_store (unat (pageIX s)) (command s i) s)\<lparr>pageIX := pageIX s + 1\<rparr>)
          else None)"

definition bit_mask :: "nat \<Rightarrow> byte" where
  "bit_mask n = push_bit n 1"

text \<open>
  \<^verbatim>\<open>RequestEvent\<close>: the \<^verbatim>\<open>switch\<close> on \<^verbatim>\<open>command[0]\<close>, its cases in the order of the
  source (\<^verbatim>\<open>READPAGE\<close> is compiled out: \<^verbatim>\<open>CMD_READPAGE\<close> is \<^verbatim>\<open>false\<close>).
\<close>

definition RequestEvent :: "opcodes \<Rightarrow> word16 \<Rightarrow> state \<Rightarrow> state option" where
  "RequestEvent oc T s =
     (let opCodeAck = NOT (command s 0) in
      if command s 0 = GETTMNLV oc then
        Some (transmit [opCodeAck, 78, 66, 84, 0, 7,
                        ucast (drop_bit 8 (T AND 0xFF00)), ucast (T AND 0xFF)]
                (s\<lparr>statusRegister := statusRegister s OR bit_mask SR_INIT_2\<rparr>))
      else if command s 0 = EXITTMNL oc then
        Some ((transmit [opCodeAck] s)
                \<lparr>statusRegister := statusRegister s OR bit_mask SR_EXIT_TML\<rparr>)
      else if command s 0 = DELFLASH oc then
        Some ((transmit [opCodeAck] s)
                \<lparr>statusRegister := statusRegister s OR bit_mask SR_DEL_FLASH\<rparr>)
      else if command s 0 = STPGADDR oc then
        Some (transmit [opCodeAck, command s 1 + command s 2]
                (s\<lparr>flashPageAddr := push_bit 8 (ucast (command s 1)) + ucast (command s 2)\<rparr>))
      else if command s 0 = WRITPAGE oc then
        (case fold WRITPAGE_step [1..<RXDATASIZE + 1] (Some (0, s)) of
           None \<Rightarrow> None
         | Some (reply1, s1) \<Rightarrow>
             let s2 = (if reply1 \<noteq> command s1 (RXDATASIZE + 1)
                       then s1\<lparr>statusRegister :=
                                 (statusRegister s1 AND NOT (bit_mask SR_APP_READY))
                                   OR bit_mask SR_DEL_FLASH\<rparr>
                       else s1)
             in Some (transmit [opCodeAck, reply1] s2))
      else if command s 0 = INITTINY oc then
        Some (transmit [opCodeAck]
                (s\<lparr>statusRegister := statusRegister s OR bit_mask SR_INIT_1\<rparr>))
      else
        Some (transmit (replicate (unat (commandLength s)) (UNKNOWNC oc)) s))"

section \<open>Supervisor loop\<close>

text \<open>
  What one pass of \<^verbatim>\<open>for (;;)\<close> ends in: the loop goes on, or \<^verbatim>\<open>RunApplication()\<close>
  was called and control has left the bootloader (through the last instruction slot of
  the trampoline page).
\<close>

datatype outcome = Running state | Handoff state

text \<open>The state a pass ends in, either way.\<close>

fun state_of :: "outcome \<Rightarrow> state" where
  "state_of (Running s) = s"
| "state_of (Handoff s) = s"

text \<open>The body of \<^verbatim>\<open>if (i2cDly-- <= 0) { ... }\<close>, the periodic tick.\<close>

definition tick :: "word16 \<Rightarrow> state \<Rightarrow> outcome option" where
  "tick T s =
     (let exit_ready = bit_mask SR_EXIT_TML + bit_mask SR_APP_READY in
      if statusRegister s AND exit_ready = exit_ready then Some (Handoff s)
      else
        (case (if statusRegister s AND exit_ready = bit_mask SR_EXIT_TML
               then DeleteFlash T s else Some s) of
           None \<Rightarrow> None
         | Some s1 \<Rightarrow>
             if statusRegister s1 AND bit_mask SR_DEL_FLASH = bit_mask SR_DEL_FLASH then
               (case DeleteFlash T (s1\<lparr>led := True\<rparr>) of
                  None \<Rightarrow> None
                | Some s2 \<Rightarrow> Some (Handoff s2))
             else
               (let s3 = (if unat (pageIX s1) = PAGE_SIZE then
                            (let s4 = FlashPage T (flashPageAddr s1) (s1\<lparr>led := \<not> led s1\<rparr>)
                             in s4\<lparr>flashPageAddr := flashPageAddr s4 + of_nat PAGE_SIZE,
                                  pageIX := 0\<rparr>)
                          else s1)
                in Some (Running (s3\<lparr>i2cDly := I2CDLYTIME\<rparr>)))))"

text \<open>
  One pass of the main loop, up to the two polls of the bus peripheral (whose handlers
  are where \<^verbatim>\<open>ReceiveEvent\<close> and \<^verbatim>\<open>RequestEvent\<close> are called from).
\<close>

definition main_pass :: "word16 \<Rightarrow> state \<Rightarrow> outcome option" where
  "main_pass T s =
     (let init12 = bit_mask SR_INIT_1 + bit_mask SR_INIT_2 in
      if statusRegister s AND init12 \<noteq> init12 then
        (let t = ledToggleTimer s; s1 = s\<lparr>ledToggleTimer := t + 1\<rparr> in
         if t \<ge> TOGGLETIME then
           (let s2 = s1\<lparr>led := \<not> led s1, ledToggleTimer := 0\<rparr>;
                e = exitDly s2;
                s3 = s2\<lparr>exitDly := e - 1\<rparr>
            in if e = 0 then Some (Handoff s3) else Some (Running s3))
         else Some (Running s1))
      else
        (let d = i2cDly s; s1 = s\<lparr>i2cDly := d - 1\<rparr> in
         if d \<le> 0 then tick T s1 else Some (Running s1)))"

text \<open>
  The state when the main loop is entered: the initialisers of the globals, then
  \<^verbatim>\<open>statusRegister = (1 << SR_APP_READY)\<close>.  Program memory holds whatever it held
  (\<open>fl\<close>); the staging buffer of the self-programming unit is empty after a reset.
\<close>

definition init_state :: "(word16 \<Rightarrow> byte) \<Rightarrow> state" where
  "init_state fl =
     \<lparr>command = (\<lambda>_. 0), commandLength = 0, ledToggleTimer = 0,
      statusRegister = bit_mask SR_APP_READY, i2cDly = I2CDLYTIME, exitDly = CYCLESTOEXIT,
      pageBuffer = (\<lambda>_. 0), flashPageAddr = 0, pageIX = 0,
      tplJumpLowByte = 0, tplJumpHighByte = 0,
      flash = fl, spm_temp = (\<lambda>_. 0xFF), spm_log = [], tx = [], led = False\<rparr>"

text \<open>
  The states the bootloader can be in between two passes of the main loop, as far as
  the source defines them: a frame or a request whose handler stores outside an array
  leads to no state.  The master decides what arrives and when; \<open>G\<close> is a discipline the
  master keeps: it holds of the state in which a request is dispatched.  \<open>reachable\<close> is
  the case of no discipline.
\<close>

inductive reachable_if :: "(state \<Rightarrow> bool) \<Rightarrow> opcodes \<Rightarrow> word16 \<Rightarrow> state \<Rightarrow> bool"
  for G :: "state \<Rightarrow> bool" and oc :: opcodes and T :: word16 where
  start: "reachable_if G oc T (init_state fl)"
| receive: "reachable_if G oc T s \<Longrightarrow> ReceiveEvent bs s = Some s' \<Longrightarrow> reachable_if G oc T s'"
| request: "reachable_if G oc T s \<Longrightarrow> G s \<Longrightarrow> RequestEvent oc T s = Some s' \<Longrightarrow>
     reachable_if G oc T s'"
| pass: "reachable_if G oc T s \<Longrightarrow> main_pass T s = Some (Running s') \<Longrightarrow> reachable_if G oc T s'"

definition reachable :: "opcodes \<Rightarrow> word16 \<Rightarrow> state \<Rightarrow> bool" where
  "reachable oc T s = reachable_if (\<lambda>_. True) oc T s"

text \<open>
  One exchange with the master: the bus layer hands over the bytes of a frame
  (\<^verbatim>\<open>ReceiveEvent\<close>), then asks for the reply (\<^verbatim>\<open>RequestEvent\<close>).
\<close>

definition exchange :: "opcodes \<Rightarrow> word16 \<Rightarrow> byte list \<Rightarrow> state \<Rightarrow> state option" where
  "exchange oc T bs s =
     (case ReceiveEvent bs s of None \<Rightarrow> None | Some s1 \<Rightarrow> RequestEvent oc T s1)"

text \<open>
  Two disciplines a master may keep.  It sends \<^verbatim>\<open>STPGADDR\<close> only with an address whose
  low six bits are clear; it sends \<^verbatim>\<open>WRITPAGE\<close> only while the page buffer has room for
  the \<^verbatim>\<open>RXDATASIZE\<close> bytes of a chunk.
\<close>

definition aligned_requests :: "opcodes \<Rightarrow> state \<Rightarrow> bool" where
  "aligned_requests oc s \<longleftrightarrow> (command s 0 = STPGADDR oc \<longrightarrow> command s 2 AND 63 = 0)"

definition paced_writes :: "opcodes \<Rightarrow> state \<Rightarrow> bool" where
  "paced_writes oc s \<longleftrightarrow>
     (command s 0 = WRITPAGE oc \<longrightarrow> unat (pageIX s) + RXDATASIZE \<le> PAGE_SIZE)"

text \<open>The exchanges of a list of frames, one after the other.\<close>

primrec exchanges :: "opcodes \<Rightarrow> word16 \<Rightarrow> byte list list \<Rightarrow> state \<Rightarrow> state option" where
  "exchanges oc T [] s = Some s"
| "exchanges oc T (bs # fs) s =
     (case exchange oc T bs s of None \<Rightarrow> None | Some s1 \<Rightarrow> exchanges oc T fs s1)"

subsection \<open>Reading the status register and instruction words\<close>

definition InitStep1 :: "state \<Rightarrow> bool" where
  "InitStep1 s = bit (statusRegister s) SR_INIT_1"

definition InitStep2 :: "state \<Rightarrow> bool" where
  "InitStep2 s = bit (statusRegister s) SR_INIT_2"

definition DeleteFlashRequested :: "state \<Rightarrow> bool" where
  "DeleteFlashRequested s = bit (statusRegister s) SR_DEL_FLASH"

definition ApplicationReady :: "state \<Rightarrow> bool" where
  "ApplicationReady s = bit (statusRegister s) SR_APP_READY"

definition ExitRequested :: "state \<Rightarrow> bool" where
  "ExitRequested s = bit (statusRegister s) SR_EXIT_TML"

subsection \<open>Phases of the supervisor loop\<close>

text \<open>
  The main loop takes its second branch when both handshake flags are set; there, the
  periodic block runs in the pass that finds \<^verbatim>\<open>i2cDly\<close> at zero.
\<close>

definition Initialized :: "state \<Rightarrow> bool" where
  "Initialized s \<longleftrightarrow> InitStep1 s \<and> InitStep2 s"

definition tick_due :: "state \<Rightarrow> bool" where
  "tick_due s \<longleftrightarrow> Initialized s \<and> i2cDly s = 0"

text \<open>
  A tick finds the page buffer full and neither an exit nor a delete pending: the pass
  commits the page.
\<close>

definition commit_due :: "state \<Rightarrow> bool" where
  "commit_due s \<longleftrightarrow>
     tick_due s \<and> \<not> ExitRequested s \<and> \<not> DeleteFlashRequested s \<and> unat (pageIX s) = PAGE_SIZE"

subsection \<open>The erase loop, unrolled\<close>

text \<open>
  \<open>n\<close> passes of the erase loop of \<^verbatim>\<open>DeleteFlash\<close>, starting at \<open>address\<close>.  The loop
  itself is \<open>DeleteFlash_loop\<close>; this is what it amounts to when it makes \<open>n\<close> passes.
\<close>

primrec erase_pages :: "word16 \<Rightarrow> nat \<Rightarrow> state \<Rightarrow> state" where
  "erase_pages address 0 s = s"
| "erase_pages address (Suc n) s =
     erase_pages (address + of_nat PAGE_SIZE) n (boot_page_erase address s)"

subsection \<open>Reading the log of the self-programming unit\<close>

text \<open>
  Staging a word touches only the staging buffer.  The operations that act on program
  memory are the page erases and page writes: \<open>page_ops\<close> keeps those, in order.
\<close>

fun is_fill :: "spm_op \<Rightarrow> bool" where
  "is_fill (PageFill a w) = True"
| "is_fill (PageErase a) = False"
| "is_fill (PageWrite a) = False"

definition page_ops :: "spm_op list \<Rightarrow> spm_op list" where
  "page_ops ops = filter (\<lambda>op. \<not> is_fill op) ops"

subsection \<open>Instruction words\<close>

text \<open>
  \<^verbatim>\<open>fptr_t RunApplication = (fptr_t)((TIMONEL_START - 2) / 2);\<close> the word address
  of the last instruction slot of the trampoline page.
\<close>

definition RunApplication_entry :: "word16 \<Rightarrow> word16" where
  "RunApplication_entry T = (T - 2) div 2"

text \<open>The 16-bit instruction word stored as two bytes, low byte first.\<close>

definition instruction :: "byte \<Rightarrow> byte \<Rightarrow> word16" where
  "instruction lo hi = push_bit 8 (ucast hi) + ucast lo"

text \<open>
  Modelled from the spec: the relative jump of the processor, which the bootloader
  only ever writes, never decodes.  The spec describes "a 16-bit instruction word
  whose upper nibble marks it as a relative-jump opcode and whose lower 12 bits carry
  the signed, word-granular displacement"; the jump goes to the word after the
  instruction plus the displacement.  The program counter of the ATtiny85 has 12 bits
  (4096 instruction words), and adding a sign-extended 12-bit displacement modulo
  \<open>2 ^ 12\<close> is adding its 12 bits.
\<close>

definition is_rjmp :: "word16 \<Rightarrow> bool" where
  "is_rjmp w \<longleftrightarrow> w AND 0xF000 = 0xC000"

definition rjmp_target :: "12 word \<Rightarrow> word16 \<Rightarrow> 12 word" where
  "rjmp_target pc w = pc + ucast w + 1"

subsection \<open>Notions of the specification and example values\<close>

text \<open>
  The 8-bit sum of the data bytes of the frame in \<^verbatim>\<open>command\<close>, which the sender puts
  behind them as the frame's last byte \<^verbatim>\<open>command[RXDATASIZE + 1]\<close>.
\<close>

definition chunk_sum :: "state \<Rightarrow> byte" where
  "chunk_sum s = sum_list (map (command s) [1..<RXDATASIZE + 1])"

text \<open>
  Example values for what the build supplies: operation codes, and a bootloader start
  address on an ATtiny85 (8 KiB of program memory).
\<close>

definition example_opcodes :: opcodes where
  "example_opcodes =
     \<lparr>GETTMNLV = 0x82, EXITTMNL = 0x86, DELFLASH = 0x83, STPGADDR = 0x84,
      WRITPAGE = 0x85, INITTINY = 0x81, UNKNOWNC = 0xFF\<rparr>"

definition example_start :: word16 where
  "example_start = 0x1A40"

text \<open>A page chunk whose data bytes sum to 36 and whose checksum byte says 0.\<close>

definition bad_chunk :: "byte list" where
  "bad_chunk = [0x85, 1, 2, 3, 4, 5, 6, 7, 8, 0]"

definition bad_chunk_state :: state where
  "bad_chunk_state = the (ReceiveEvent bad_chunk (init_state (\<lambda>_. 0xFF)))"


text \<open>
  Program memory holding an application's trampoline: erased cells everywhere but in the
  last instruction slot below \<open>example_start\<close>, which holds the relative jump
  \<^verbatim>\<open>0xC2EF\<close> (what \<^verbatim>\<open>CalculateTrampoline\<close> makes of the reset vector \<^verbatim>\<open>0xC00E\<close>).
\<close>

definition example_flash :: "word16 \<Rightarrow> byte" where
  "example_flash x = (if x = 0x1A3E then 0xEF else if x = 0x1A3F then 0xC2 else 0xFF)"

text \<open>
  Example runs from power-on, with \<open>example_flash\<close> in program memory: the handshake
  (\<^verbatim>\<open>INITTINY\<close>, then \<^verbatim>\<open>GETTMNLV\<close>); after it, a page chunk with a wrong checksum
  followed by \<^verbatim>\<open>EXITTMNL\<close>, or \<^verbatim>\<open>EXITTMNL\<close> alone; each of the last two taken to the
  pass in which \<^verbatim>\<open>i2cDly\<close> has run out.
\<close>

definition handshake_state :: state where
  "handshake_state =
     the (exchanges example_opcodes example_start [[0x81], [0x82]] (init_state example_flash))"



text \<open>A page chunk with the right checksum.\<close>

definition good_chunk :: "byte list" where
  "good_chunk = [0x85, 1, 2, 3, 4, 5, 6, 7, 8, 36]"

text \<open>
  After the handshake, \<^verbatim>\<open>STPGADDR\<close> with the address \<^verbatim>\<open>0x0001\<close>; then eight good
  chunks, taken to the tick that commits them.  And, from power-on, eight good chunks
  in a row, which fill the page buffer.
\<close>

definition unaligned_address_state :: state where
  "unaligned_address_state =
     the (exchanges example_opcodes example_start [[0x84, 0x00, 0x01]] handshake_state)"

definition unaligned_commit_state :: state where
  "unaligned_commit_state =
     (the (exchanges example_opcodes example_start (replicate 8 good_chunk)
             unaligned_address_state))
       \<lparr>i2cDly := 0\<rparr>"

definition eight_chunks_state :: state where
  "eight_chunks_state =
     the (exchanges example_opcodes example_start (replicate 8 good_chunk)
            (init_state example_flash))"

text \<open>The handshake, then eight good chunks, taken to the tick that commits them.\<close>

definition full_page_state :: state where
  "full_page_state =
     (the (exchanges example_opcodes example_start (replicate 8 good_chunk) handshake_state))
       \<lparr>i2cDly := 0\<rparr>"

text \<open>
  Passes of the main loop alone, one after the other, with no bus activity in between:
  \<open>idle_passes T s s'\<close> when the loop started in \<open>s\<close> is in \<open>s'\<close> some passes later.
\<close>

inductive idle_passes :: "word16 \<Rightarrow> state \<Rightarrow> state \<Rightarrow> bool" for T :: word16 where
  idle_refl: "idle_passes T s s"
| idle_step: "idle_passes T s s' \<Longrightarrow> main_pass T s' = Some (Running s'') \<Longrightarrow> idle_passes T s s''"

text \<open>
  Power-on, then the \<^verbatim>\<open>INITTINY\<close> exchange alone; and the same state with the pre-init
  timers run down: the toggle timer at \<^verbatim>\<open>TOGGLETIME\<close>, the exit countdown at 0.
\<close>

definition one_flag_state :: state where
  "one_flag_state =
     the (exchanges example_opcodes example_start [[0x81]] (init_state example_flash))"

definition one_flag_expired_state :: state where
  "one_flag_expired_state = one_flag_state\<lparr>ledToggleTimer := 0xFFFF, exitDly := 0\<rparr>"

text \<open>Power-on, then \<^verbatim>\<open>GETTMNLV\<close> first and \<^verbatim>\<open>INITTINY\<close> second.\<close>

definition reverse_handshake_state :: state where
  "reverse_handshake_state =
     the (exchanges example_opcodes example_start [[0x82], [0x81]] (init_state example_flash))"


section \<open>Lemmas about the dispatcher\<close>

lemma data_indices: "[1..<RXDATASIZE + 1] = [1, 2, 3, 4, 5, 6, 7, 8]"
  by (simp add: RXDATASIZE_def upt_rec)

lemma pageBuffer_store_fields [simp]:
  "statusRegister (pageBuffer_store i v s) = statusRegister s"
  "command (pageBuffer_store i v s) = command s"
  "commandLength (pageBuffer_store i v s) = commandLength s"
  "pageIX (pageBuffer_store i v s) = pageIX s"
  "tx (pageBuffer_store i v s) = tx s"
  "flashPageAddr (pageBuffer_store i v s) = flashPageAddr s"
  "flash (pageBuffer_store i v s) = flash s"
  "spm_log (pageBuffer_store i v s) = spm_log s"
  "spm_temp (pageBuffer_store i v s) = spm_temp s"
  "tplJumpLowByte (pageBuffer_store i v s) = tplJumpLowByte s"
  "tplJumpHighByte (pageBuffer_store i v s) = tplJumpHighByte s"
  "i2cDly (pageBuffer_store i v s) = i2cDly s"
  "exitDly (pageBuffer_store i v s) = exitDly s"
  "ledToggleTimer (pageBuffer_store i v s) = ledToggleTimer s"
  "led (pageBuffer_store i v s) = led s"
  by (simp_all add: pageBuffer_store_def)

lemma transmit_fields [simp]:
  "tx (transmit bs s) = tx s @ bs"
  "statusRegister (transmit bs s) = statusRegister s"
  "pageIX (transmit bs s) = pageIX s"
  "flashPageAddr (transmit bs s) = flashPageAddr s"
  "command (transmit bs s) = command s"
  "flash (transmit bs s) = flash s"
  "pageBuffer (transmit bs s) = pageBuffer s"
  unfolding transmit_def
  by (induction bs arbitrary: s; simp add: UsiTwiTransmitByte_def)+

lemma bit_mask_simps:
  "bit_mask SR_INIT_1 = 1" "bit_mask SR_INIT_2 = 2" "bit_mask SR_DEL_FLASH = 4"
  "bit_mask SR_APP_READY = 8" "bit_mask SR_EXIT_TML = 16"
  by (simp_all add: bit_mask_def SR_INIT_1_def SR_INIT_2_def SR_DEL_FLASH_def
      SR_APP_READY_def SR_EXIT_TML_def)


section \<open>Lemmas about instruction words and the trampoline calculation\<close>

lemma num_masks:
  "(0xFFF :: word16) = mask 12" "(0xFF :: word16) = mask 8" "(63 :: word16) = mask 6"
  "(0xF00 :: word16) = push_bit 8 (mask 4)" "(0xC0 :: byte) = push_bit 6 (mask 2)"
  "(0xF000 :: word16) = push_bit 12 (mask 4)" "(0xC000 :: word16) = push_bit 14 (mask 2)"
  by (simp_all add: mask_eq_exp_minus_1)

lemma instruction_or: "instruction lo hi = push_bit 8 (ucast hi) OR ucast lo"
  unfolding instruction_def
proof (rule disjunctive_add_eq_or, rule bit_eqI)
  fix n
  show "bit (push_bit 8 (ucast hi :: word16) AND ucast lo) n = bit (0 :: word16) n"
    by (simp add: bit_simps) (auto dest: bit_imp_le_length)
qed

lemma hi_or: "(ucast (drop_bit 8 (jo AND 0xF00 :: word16)) :: byte) + 0xC0
   = ucast (drop_bit 8 (jo AND 0xF00 :: word16)) OR 0xC0"
  unfolding num_masks
  by (rule disjunctive_add_eq_or, rule bit_eqI) (simp add: bit_simps)

lemma tpl_pc: "(ucast (instruction (ucast (jo AND 0xFF :: word16)) (ucast (drop_bit 8 (jo AND 0xF00)) + 0xC0)) :: 12 word) = ucast jo"
  unfolding hi_or instruction_or
  unfolding num_masks
  by (rule bit_eqI) (auto simp add: bit_simps)

lemma tpl_rjmp: "is_rjmp (instruction (ucast (jo AND 0xFF :: word16)) (ucast (drop_bit 8 (jo AND 0xF00)) + 0xC0))"
  unfolding hi_or instruction_or is_rjmp_def
  unfolding num_masks
  by (rule bit_eqI) (auto simp add: bit_simps)

lemma take_bit_12_16_add:
  "take_bit 12 (take_bit 16 a + take_bit 16 b :: int) = take_bit 12 (a + b)"
proof -
  have "take_bit 12 (take_bit 16 (take_bit 16 a + take_bit 16 b))
      = take_bit 12 (take_bit 16 (a + b))"
    by (simp only: take_bit_add)
  then show ?thesis by simp
qed

lemma take_bit_12_16_minus:
  "take_bit 12 (- take_bit 16 a :: int) = take_bit 12 (- a)"
proof -
  have "take_bit 12 (take_bit 16 (- take_bit 16 a)) = take_bit 12 (take_bit 16 (- a))"
    by (simp only: take_bit_minus)
  then show ?thesis by simp
qed

lemma pc_add: "(ucast (a + b :: word16) :: 12 word) = ucast a + ucast b"
  by transfer (simp add: take_bit_12_16_add)

lemma pc_minus: "(ucast (- a :: word16) :: 12 word) = - ucast a"
  by transfer (simp add: take_bit_12_16_minus)

lemma pc_diff: "(ucast (a - b :: word16) :: 12 word) = ucast a - ucast b"
  using pc_add [of a "- b"] by (simp add: pc_minus)

lemma pc_half: "(ucast (signed_drop_bit 1 (2 * y :: word16)) :: 12 word) = ucast y"
  by (rule bit_eqI) (simp add: bit_simps)

lemma pc_half_div: "(ucast ((2 * y :: word16) div 2) :: 12 word) = ucast y"
proof -
  have "(2 * y) div 2 = drop_bit 1 (2 * y)" by (simp add: drop_bit_eq_div)
  then show ?thesis by (simp, intro bit_eqI) (simp add: bit_simps)
qed

lemma pc_and: "(ucast (y AND 0xFFF :: word16) :: 12 word) = ucast y"
  unfolding num_masks by (rule bit_eqI) (simp add: bit_simps)

lemma sdb_not: "signed_drop_bit n (NOT w) = NOT (signed_drop_bit n (w::word16))"
  by (rule bit_eqI) (auto simp add: bit_simps)

lemma aligned_even: "page_aligned T \<Longrightarrow> T = 2 * (T div 2)"
proof -
  assume "page_aligned T"
  then have "\<not> bit (T AND 63) 0" by (simp add: page_aligned_def)
  then have "\<not> bit T 0" by (simp add: bit_and_iff)
  then have "T mod 2 = 0" by (simp add: bit_0 even_iff_mod_2_eq_zero)
  with mult_div_mod_eq [of 2 T] show ?thesis by simp
qed

lemma jumpOffset_pc:
  assumes "page_aligned T"
  shows "(ucast (jumpOffset T lo hi) :: 12 word) = ucast (instruction lo hi) + 1 - ucast (T div 2)"
proof -
  define a where "a = (instruction lo hi + 1) AND 0xFFF"
  have T: "T = 2 * (T div 2)" by (rule aligned_even [OF assms])
  have "jumpOffset T lo hi = - signed_drop_bit 1 (T - push_bit 1 a)"
    unfolding jumpOffset_def sdb_not a_def instruction_def by (simp add: minus_eq_not_plus_1)
  also have "T - push_bit 1 a = 2 * (T div 2 - a)"
    using T by (simp add: algebra_simps)
  finally have "(ucast (jumpOffset T lo hi) :: 12 word) = - ucast (T div 2 - a)"
    by (simp only: pc_minus pc_half)
  also have "\<dots> = ucast a - ucast (T div 2)" by (simp add: pc_diff)
  also have "(ucast a :: 12 word) = ucast (instruction lo hi) + 1"
    unfolding a_def by (simp add: pc_and pc_add)
  finally show ?thesis .
qed

lemma entry_pc:
  assumes "page_aligned T"
  shows "(ucast (RunApplication_entry T) :: 12 word) = ucast (T div 2) - 1"
proof -
  have T: "T = 2 * (T div 2)" by (rule aligned_even [OF assms])
  have "T - 2 = 2 * (T div 2 - 1)" using T by (simp add: algebra_simps)
  then have "RunApplication_entry T = (2 * (T div 2 - 1)) div 2"
    by (simp add: RunApplication_entry_def)
  then show ?thesis by (simp only: pc_half_div pc_diff) simp
qed

lemma CalculateTrampoline_word:
  "instruction (tplJumpLowByte (CalculateTrampoline T lo hi s))
               (tplJumpHighByte (CalculateTrampoline T lo hi s))
   = instruction (ucast (jumpOffset T lo hi AND 0xFF))
                 (ucast (drop_bit 8 (jumpOffset T lo hi AND 0xF00)) + 0xC0)"
  by (simp add: CalculateTrampoline_def Let_def)


section \<open>Addresses and pages as numbers\<close>

lemma mask_63: "(63 :: word16) = mask 6" by (simp add: mask_eq_exp_minus_1)

lemma page_aligned_nat: "page_aligned a \<longleftrightarrow> unat a mod 64 = 0"
  unfolding page_aligned_def mask_63
  using and_mask_dvd_nat [of 6 a] by (simp add: dvd_eq_mod_eq_0)

lemma unat_and_63: "unat (a AND 63 :: word16) = unat a mod 64"
proof -
  have "a AND 63 = take_bit 6 a" unfolding mask_63 by (simp only: take_bit_eq_mask)
  then have "unat (a AND 63) = take_bit 6 (unat a)" by (simp only: unsigned_take_bit_eq)
  then show ?thesis by (simp add: take_bit_eq_mod)
qed

lemma page_base_split: "a = page_base a + (a AND 63)"
proof -
  have "page_base a AND (a AND 63) = 0"
    unfolding page_base_def by (rule bit_eqI) (simp add: bit_simps)
  then have "page_base a + (a AND 63) = page_base a OR (a AND 63)"
    by (rule disjunctive_add_eq_or)
  also have "\<dots> = a"
    unfolding page_base_def by (rule bit_eqI) (auto simp add: bit_simps)
  finally show ?thesis by simp
qed

lemma unat_page_base: "unat (page_base a) = 64 * (unat a div 64)"
proof -
  have le: "a AND 63 \<le> a" by (rule word_and_le2)
  have "page_base a = a - (a AND 63)"
    using page_base_split [of a] by (simp add: algebra_simps)
  then have "unat (page_base a) = unat a - unat (a AND 63)"
    using le by (simp add: unat_sub)
  also have "\<dots> = unat a - unat a mod 64" by (simp add: unat_and_63)
  finally show ?thesis by (simp add: minus_mod_eq_mult_div)
qed

lemma page_base_eq_iff: "page_base x = page_base y \<longleftrightarrow> unat x div 64 = unat y div 64"
proof -
  have "page_base x = page_base y \<longleftrightarrow> unat (page_base x) = unat (page_base y)"
    by (simp add: word_unat_eq_iff)
  then show ?thesis by (simp add: unat_page_base)
qed

lemma unat_and_62: "unat (a AND 62 :: word16) = 2 * (unat a div 2 mod 32)"
proof -
  have c: "(62 :: word16) = 2 * mask 5" by (simp add: mask_eq_exp_minus_1)
  have "a AND 2 * mask 5 = 2 * take_bit 5 (drop_bit 1 a)"
    by (rule bit_eqI) (auto simp add: bit_simps)
  then have e: "a AND 62 = 2 * (a div 2 mod 32)"
    unfolding c by (simp add: take_bit_eq_mod drop_bit_eq_div)
  have "unat a div 2 mod 32 * 2 < 65536"
  proof -
    have "unat a div 2 mod 32 < 32" by simp
    then show ?thesis by linarith
  qed
  then show ?thesis
    unfolding e by (simp add: unat_word_ariths unat_div unat_mod mod_mod_cancel)
qed


section \<open>Lemmas about the flash writer\<close>

declare FlashRaw_fill.simps [simp del]

lemma boot_page_fill_fields [simp]:
  "flash (boot_page_fill a w s) = flash s"
  "pageBuffer (boot_page_fill a w s) = pageBuffer s"
  "flashPageAddr (boot_page_fill a w s) = flashPageAddr s"
  "statusRegister (boot_page_fill a w s) = statusRegister s"
  "pageIX (boot_page_fill a w s) = pageIX s"
  "tplJumpLowByte (boot_page_fill a w s) = tplJumpLowByte s"
  "tplJumpHighByte (boot_page_fill a w s) = tplJumpHighByte s"
  "spm_log (boot_page_fill a w s) = spm_log s @ [PageFill a w]"
  by (simp_all add: boot_page_fill_def Let_def)

lemma FlashRaw_fill_fields:
  "flash (FlashRaw_fill pa i s) = flash s \<and>
   pageBuffer (FlashRaw_fill pa i s) = pageBuffer s \<and>
   flashPageAddr (FlashRaw_fill pa i s) = flashPageAddr s \<and>
   statusRegister (FlashRaw_fill pa i s) = statusRegister s \<and>
   pageIX (FlashRaw_fill pa i s) = pageIX s \<and>
   tplJumpLowByte (FlashRaw_fill pa i s) = tplJumpLowByte s \<and>
   tplJumpHighByte (FlashRaw_fill pa i s) = tplJumpHighByte s"
proof (induction pa i s rule: FlashRaw_fill.induct)
  case (1 pa i s)
  show ?case
  proof (cases "i < PAGE_SIZE")
    case True
    with 1 show ?thesis by (subst (1 2 3 4 5 6 7) FlashRaw_fill.simps) simp
  next
    case False
    then show ?thesis by (simp add: FlashRaw_fill.simps)
  qed
qed

lemma fold_pageBuffer_store:
  "n \<le> PAGE_SIZE \<Longrightarrow>
   fold (\<lambda>i. pageBuffer_store i v) [0..<n] s
     = s\<lparr>pageBuffer := (\<lambda>i. if i < n then v else pageBuffer s i)\<rparr>"
proof (induction n)
  case 0
  show ?case by simp
next
  case (Suc n)
  then have "fold (\<lambda>i. pageBuffer_store i v) [0..<Suc n] s
      = pageBuffer_store n v (s\<lparr>pageBuffer := (\<lambda>i. if i < n then v else pageBuffer s i)\<rparr>)"
    by simp
  also have "\<dots> = s\<lparr>pageBuffer := (\<lambda>i. if i < Suc n then v else pageBuffer s i)\<rparr>"
    using Suc.prems by (auto simp add: pageBuffer_store_def fun_eq_iff)
  finally show ?case .
qed

lemma ClearPageBuffer_eq:
  "ClearPageBuffer s = s\<lparr>pageBuffer := (\<lambda>i. if i < PAGE_SIZE then 0xFF else pageBuffer s i)\<rparr>"
  unfolding ClearPageBuffer_def by (rule fold_pageBuffer_store) simp


lemma word_of_bytes_lo: "(ucast (push_bit 8 (ucast (hi::byte) :: word16) OR ucast (lo::byte)) :: byte) = lo"
  by (rule bit_eqI) (auto simp add: bit_simps dest: bit_imp_le_length)

lemma word_of_bytes_hi:
  "(ucast (drop_bit 8 (push_bit 8 (ucast (hi::byte) :: word16) OR ucast (lo::byte))) :: byte) = hi"
  by (rule bit_eqI) (auto simp add: bit_simps dest: bit_imp_le_length)

lemma aligned_unat:
  assumes "page_aligned pa"
  obtains k where "unat pa = 64 * k" and "k < 1024"
proof -
  from assms have "unat pa mod 64 = 0" by (simp add: page_aligned_nat)
  then have "64 dvd unat pa" by (simp add: dvd_eq_mod_eq_0)
  then obtain k where k: "unat pa = 64 * k" by (auto elim: dvdE)
  have "unat pa < 65536" using unsigned_less [of pa, where ?'a = nat] by simp
  with k have "k < 1024" by simp
  with k that show ?thesis by blast
qed

lemma aligned_add_unat:
  assumes "page_aligned pa" and "i < 64"
  shows "unat (pa + of_nat i) = unat pa + i"
proof -
  from assms(1) obtain k where k: "unat pa = 64 * k" "k < 1024" by (rule aligned_unat)
  with assms(2) have "unat pa + i < 65536" by simp
  moreover have "unat (of_nat i :: word16) = i" using assms(2) by (simp add: unat_of_nat)
  ultimately show ?thesis using unat_add_lem [of pa "of_nat i"] by simp
qed

lemma fill_index:
  assumes "page_aligned pa" and "i < 64" and "even i"
  shows "unat ((pa + of_nat i) AND 62) = i"
proof -
  from assms(1) obtain k where k: "unat pa = 64 * k" "k < 1024" by (rule aligned_unat)
  from assms(3) obtain j where j: "i = 2 * j" by (auto elim: evenE)
  have "unat ((pa + of_nat i) AND 62) = 2 * ((unat pa + i) div 2 mod 32)"
    by (simp add: unat_and_62 aligned_add_unat [OF assms(1,2)])
  also have "(unat pa + i) div 2 = 32 * k + j" unfolding k j by simp
  also have "(32 * k + j) mod 32 = j" using assms(2) j by simp
  finally show ?thesis using j by simp
qed

lemma FlashRaw_fill_temp:
  "page_aligned pa \<Longrightarrow> even i \<Longrightarrow> i \<le> PAGE_SIZE \<Longrightarrow>
   spm_temp (FlashRaw_fill pa i s)
     = (\<lambda>j. if i \<le> j \<and> j < PAGE_SIZE then pageBuffer s j else spm_temp s j)"
proof (induction pa i s rule: FlashRaw_fill.induct)
  case (1 pa i s)
  show ?case
  proof (cases "i < PAGE_SIZE")
    case False
    then have "FlashRaw_fill pa i s = s" by (simp add: FlashRaw_fill.simps)
    with False "1.prems" show ?thesis by (auto simp add: fun_eq_iff)
  next
    case True
    define w where "w = (push_bit 8 (ucast (pageBuffer s (i + 1))) OR ucast (pageBuffer s i) :: word16)"
    define s' where "s' = boot_page_fill (pa + of_nat i) w s"
    from True have i64: "i < 64" by (simp add: PAGE_SIZE_def)
    have idx: "unat ((pa + of_nat i) AND 62) = i"
      using "1.prems" i64 by (simp add: fill_index)
    have t: "spm_temp s' = (spm_temp s)(i := pageBuffer s i, Suc i := pageBuffer s (i + 1))"
      unfolding s'_def w_def boot_page_fill_def Let_def idx word_of_bytes_lo word_of_bytes_hi
      by simp
    have b: "pageBuffer s' = pageBuffer s" unfolding s'_def by simp
    from "1.prems" True have le: "i + 2 \<le> PAGE_SIZE"
      by (auto simp add: PAGE_SIZE_def elim!: evenE)
    with "1.IH" [OF True] "1.prems" have
      "spm_temp (FlashRaw_fill pa (i + 2) s')
        = (\<lambda>j. if i + 2 \<le> j \<and> j < PAGE_SIZE then pageBuffer s' j else spm_temp s' j)"
      unfolding s'_def w_def by simp
    moreover have "FlashRaw_fill pa i s = FlashRaw_fill pa (i + 2) s'"
      using True unfolding s'_def w_def by (subst FlashRaw_fill.simps) simp
    ultimately show ?thesis
      using True le unfolding t b by (auto simp add: fun_eq_iff)
  qed
qed

lemma FlashRaw_fill_log:
  "page_ops (spm_log (FlashRaw_fill pa i s)) = page_ops (spm_log s)"
proof (induction pa i s rule: FlashRaw_fill.induct)
  case (1 pa i s)
  show ?case
  proof (cases "i < PAGE_SIZE")
    case True
    with 1 show ?thesis by (subst FlashRaw_fill.simps) (simp add: page_ops_def)
  next
    case False
    then show ?thesis by (simp add: FlashRaw_fill.simps)
  qed
qed

lemma page_base_aligned: "page_aligned a \<Longrightarrow> page_base a = a"
  using page_base_split [of a] by (simp add: page_aligned_def)

lemma page_base_is_aligned: "page_aligned (page_base a)"
  unfolding page_aligned_def page_base_def by (rule bit_eqI) (simp add: bit_simps)

lemma FlashRaw_fields [simp]:
  "pageBuffer (FlashRaw pa s) = pageBuffer s"
  "flashPageAddr (FlashRaw pa s) = flashPageAddr s"
  "statusRegister (FlashRaw pa s) = statusRegister s"
  "pageIX (FlashRaw pa s) = pageIX s"
  "tplJumpLowByte (FlashRaw pa s) = tplJumpLowByte s"
  "tplJumpHighByte (FlashRaw pa s) = tplJumpHighByte s"
  by (simp_all add: FlashRaw_def boot_page_write_def FlashRaw_fill_fields)

lemma FlashRaw_flash:
  assumes "page_aligned pa"
  shows "flash (FlashRaw pa s) x
     = (if page_base x = pa then flash s x AND pageBuffer s (unat (x AND 63)) else flash s x)"
proof -
  have "unat (x AND 63) < PAGE_SIZE" by (simp add: unat_and_63 PAGE_SIZE_def)
  then show ?thesis
    using assms
    by (simp add: FlashRaw_def boot_page_write_def FlashRaw_fill_fields FlashRaw_fill_temp
        page_base_aligned)
qed

lemma FlashRaw_log:
  "page_ops (spm_log (FlashRaw pa s)) = page_ops (spm_log s) @ [PageWrite pa]"
  using FlashRaw_fill_log [of pa 0 s]
  by (simp add: FlashRaw_def boot_page_write_def page_ops_def)

lemma boot_page_erase_fields [simp]:
  "pageBuffer (boot_page_erase a s) = pageBuffer s"
  "flashPageAddr (boot_page_erase a s) = flashPageAddr s"
  "statusRegister (boot_page_erase a s) = statusRegister s"
  "pageIX (boot_page_erase a s) = pageIX s"
  "tplJumpLowByte (boot_page_erase a s) = tplJumpLowByte s"
  "tplJumpHighByte (boot_page_erase a s) = tplJumpHighByte s"
  "spm_log (boot_page_erase a s) = spm_log s @ [PageErase a]"
  "flash (boot_page_erase a s) x = (if page_base x = page_base a then 0xFF else flash s x)"
  by (simp_all add: boot_page_erase_def)

lemma unat_add_page:
  assumes "unat a + 64 < 65536"
  shows "unat (a + of_nat PAGE_SIZE :: word16) = unat a + 64"
proof -
  have "unat (of_nat PAGE_SIZE :: word16) = 64" by (simp add: PAGE_SIZE_def)
  with assms show ?thesis using unat_add_lem [of a "of_nat PAGE_SIZE"] by simp
qed

lemma DeleteFlash_loop_run:
  "unat a + 64 * n = unat T \<Longrightarrow> DeleteFlash_loop T a s = Some (erase_pages a n s)"
proof (induction n arbitrary: a s)
  case 0
  then have "a = T" by (simp add: word_unat_eq_iff)
  then show ?case by (subst DeleteFlash_loop.simps) simp
next
  case (Suc n)
  have b: "unat T < 65536" using unsigned_less [of T, where ?'a = nat] by simp
  from Suc.prems have lt: "a < T" by (simp add: word_less_nat_alt)
  from Suc.prems b have u: "unat (a + of_nat PAGE_SIZE) = unat a + 64"
    by (intro unat_add_page) simp
  with Suc.prems have "unat (a + of_nat PAGE_SIZE) + 64 * n = unat T" by simp
  from Suc.IH [OF this] lt show ?case
    by (subst DeleteFlash_loop.simps) simp
qed

lemma erase_pages_fields:
  "pageBuffer (erase_pages a n s) = pageBuffer s \<and>
   flashPageAddr (erase_pages a n s) = flashPageAddr s \<and>
   statusRegister (erase_pages a n s) = statusRegister s \<and>
   pageIX (erase_pages a n s) = pageIX s \<and>
   tplJumpLowByte (erase_pages a n s) = tplJumpLowByte s \<and>
   tplJumpHighByte (erase_pages a n s) = tplJumpHighByte s"
  by (induction n arbitrary: a s) simp_all

lemma div_64_eq_iff: "(m::nat) div 64 = k \<longleftrightarrow> 64 * k \<le> m \<and> m < 64 * k + 64"
proof
  assume d: "m div 64 = k"
  have "64 * (m div 64) + m mod 64 = m" by simp
  moreover have "m mod 64 < 64" by simp
  ultimately show "64 * k \<le> m \<and> m < 64 * k + 64" unfolding d by linarith
next
  assume "64 * k \<le> m \<and> m < 64 * k + 64"
  then show "m div 64 = k" by (intro div_nat_eqI) simp_all
qed

lemma page_base_eq_aligned:
  assumes "page_aligned a"
  shows "page_base x = page_base a \<longleftrightarrow> unat a \<le> unat x \<and> unat x < unat a + 64"
proof -
  from assms obtain k where k: "unat a = 64 * k" "k < 1024" by (rule aligned_unat)
  then have d: "unat a div 64 = k" by simp
  have "page_base x = page_base a \<longleftrightarrow> unat x div 64 = unat a div 64"
    by (rule page_base_eq_iff)
  also have "\<dots> \<longleftrightarrow> unat x div 64 = k" by (simp only: d)
  also have "\<dots> \<longleftrightarrow> 64 * k \<le> unat x \<and> unat x < 64 * k + 64" by (rule div_64_eq_iff)
  finally show ?thesis by (simp only: k)
qed

lemma erase_pages_flash:
  "page_aligned a \<Longrightarrow> unat a + 64 * n < 65536 \<Longrightarrow>
   flash (erase_pages a n s) x
     = (if unat a \<le> unat x \<and> unat x < unat a + 64 * n then 0xFF else flash s x)"
proof (induction n arbitrary: a s)
  case 0
  show ?case by auto
next
  case (Suc n)
  from Suc.prems have u: "unat (a + of_nat PAGE_SIZE) = unat a + 64"
    by (intro unat_add_page) simp
  from Suc.prems(1) have "unat a mod 64 = 0" by (simp add: page_aligned_nat)
  with u have al: "page_aligned (a + of_nat PAGE_SIZE)" by (simp add: page_aligned_nat)
  from Suc.prems u have "unat (a + of_nat PAGE_SIZE) + 64 * n < 65536" by simp
  from Suc.IH [OF al this, of "boot_page_erase a s"]
  have "flash (erase_pages a (Suc n) s) x
     = (if unat a + 64 \<le> unat x \<and> unat x < unat a + 64 + 64 * n then 0xFF
        else if unat a \<le> unat x \<and> unat x < unat a + 64 then 0xFF else flash s x)"
    by (simp only: erase_pages.simps u boot_page_erase_fields
        page_base_eq_aligned [OF Suc.prems(1)])
  also have "\<dots> = (if unat a \<le> unat x \<and> unat x < unat a + 64 * Suc n then 0xFF else flash s x)"
    by auto
  finally show ?case .
qed

lemma FixResetVector_fields [simp]:
  "flash (FixResetVector T s) = flash s"
  "spm_log (FixResetVector T s) = spm_log s"
  "spm_temp (FixResetVector T s) = spm_temp s"
  "flashPageAddr (FixResetVector T s) = flashPageAddr s"
  "statusRegister (FixResetVector T s) = statusRegister s"
  "pageIX (FixResetVector T s) = pageIX s"
  "tplJumpLowByte (FixResetVector T s) = tplJumpLowByte s"
  "tplJumpHighByte (FixResetVector T s) = tplJumpHighByte s"
  by (simp_all add: FixResetVector_def Let_def)

lemma CalculateTrampoline_fields [simp]:
  "flash (CalculateTrampoline T lo hi s) = flash s"
  "spm_log (CalculateTrampoline T lo hi s) = spm_log s"
  "spm_temp (CalculateTrampoline T lo hi s) = spm_temp s"
  "flashPageAddr (CalculateTrampoline T lo hi s) = flashPageAddr s"
  "statusRegister (CalculateTrampoline T lo hi s) = statusRegister s"
  "pageIX (CalculateTrampoline T lo hi s) = pageIX s"
  "pageBuffer (CalculateTrampoline T lo hi s) = pageBuffer s"
  by (simp_all add: CalculateTrampoline_def Let_def)

lemma fold_pageBuffer_store_fields [simp]:
  "flash (fold (\<lambda>i. pageBuffer_store i v) ns s) = flash s"
  "spm_log (fold (\<lambda>i. pageBuffer_store i v) ns s) = spm_log s"
  "spm_temp (fold (\<lambda>i. pageBuffer_store i v) ns s) = spm_temp s"
  "flashPageAddr (fold (\<lambda>i. pageBuffer_store i v) ns s) = flashPageAddr s"
  "statusRegister (fold (\<lambda>i. pageBuffer_store i v) ns s) = statusRegister s"
  "pageIX (fold (\<lambda>i. pageBuffer_store i v) ns s) = pageIX s"
  "tplJumpLowByte (fold (\<lambda>i. pageBuffer_store i v) ns s) = tplJumpLowByte s"
  "tplJumpHighByte (fold (\<lambda>i. pageBuffer_store i v) ns s) = tplJumpHighByte s"
  by (induction ns arbitrary: s; simp)+

lemma FlashPage_mask: "a AND NOT (of_nat PAGE_SIZE - 1) = page_base a"
  by (simp add: PAGE_SIZE_def page_base_def)

lemma CreateTrampoline_fields [simp]:
  "statusRegister (CreateTrampoline T s) = statusRegister s"
  "pageIX (CreateTrampoline T s) = pageIX s"
  by (simp_all add: CreateTrampoline_def Let_def)

lemma CreateTrampoline_log:
  "page_ops (spm_log (CreateTrampoline T s))
     = page_ops (spm_log s) @
       (if flashPageAddr s < T - of_nat PAGE_SIZE then [PageWrite (T - of_nat PAGE_SIZE)] else [])"
  by (simp add: CreateTrampoline_def Let_def FlashRaw_log)

lemma FlashPage_fields [simp]:
  "statusRegister (FlashPage T a s) = statusRegister s"
  "pageIX (FlashPage T a s) = pageIX s"
  by (simp_all add: FlashPage_def Let_def)

lemma FlashPage_flashPageAddr:
  "flashPageAddr (FlashPage T a s)
     = (if page_base a = 0 \<and> T \<noteq> 0 then 0 else flashPageAddr s)"
  by (auto simp add: FlashPage_def Let_def FlashPage_mask word_le_nat_alt unat_gt_0 [symmetric] simp del: unat_gt_0)

lemma FlashPage_log:
  "page_ops (spm_log (FlashPage T a s))
     = page_ops (spm_log s) @
       (if T \<le> page_base a then []
        else if page_base a = 0 \<and> flashPageAddr s < T - of_nat PAGE_SIZE
             then [PageWrite 0, PageWrite (T - of_nat PAGE_SIZE)]
        else [PageWrite (page_base a)])"
  by (simp add: FlashPage_def Let_def FlashPage_mask FlashRaw_log CreateTrampoline_log)

lemma FlashPage_discard:
  assumes "T \<le> page_base a"
  shows "flash (FlashPage T a s) = flash s" and "spm_log (FlashPage T a s) = spm_log s"
    and "spm_temp (FlashPage T a s) = spm_temp s"
  using assms by (simp_all add: FlashPage_def Let_def FlashPage_mask)


lemma all_less_8: "(\<forall>n<8. P n) \<longleftrightarrow> P 0 \<and> P 1 \<and> P 2 \<and> P 3 \<and> P 4 \<and> P 5 \<and> P 6 \<and> P (7::nat)"
proof -
  have "(8::nat) = Suc (Suc (Suc (Suc (Suc (Suc (Suc (Suc 0)))))))" by simp
  then show ?thesis by (simp only: All_less_Suc) (auto simp add: numeral_eq_Suc)
qed

lemma byte_eq_iff: "(v::byte) = w \<longleftrightarrow> (\<forall>n<8. bit v n = bit w n)"
  by (auto simp add: bit_eq_iff dest: bit_imp_le_length)

lemma status_tests:
  "statusRegister s AND (bit_mask SR_INIT_1 + bit_mask SR_INIT_2)
      = bit_mask SR_INIT_1 + bit_mask SR_INIT_2 \<longleftrightarrow> InitStep1 s \<and> InitStep2 s"
  "statusRegister s AND (bit_mask SR_EXIT_TML + bit_mask SR_APP_READY)
      = bit_mask SR_EXIT_TML + bit_mask SR_APP_READY \<longleftrightarrow> ExitRequested s \<and> ApplicationReady s"
  "statusRegister s AND (bit_mask SR_EXIT_TML + bit_mask SR_APP_READY)
      = bit_mask SR_EXIT_TML \<longleftrightarrow> ExitRequested s \<and> \<not> ApplicationReady s"
  "statusRegister s AND bit_mask SR_DEL_FLASH = bit_mask SR_DEL_FLASH \<longleftrightarrow> DeleteFlashRequested s"
  unfolding bit_mask_simps
  unfolding InitStep1_def InitStep2_def ExitRequested_def ApplicationReady_def
    DeleteFlashRequested_def SR_INIT_1_def SR_INIT_2_def SR_DEL_FLASH_def SR_APP_READY_def
    SR_EXIT_TML_def
  by (simp_all add: byte_eq_iff all_less_8 bit_and_iff conj_commute)

lemma flags_cong:
  assumes "statusRegister s' = statusRegister s"
  shows "InitStep1 s' = InitStep1 s" "InitStep2 s' = InitStep2 s"
    "DeleteFlashRequested s' = DeleteFlashRequested s" "ApplicationReady s' = ApplicationReady s"
    "ExitRequested s' = ExitRequested s" "Initialized s' = Initialized s"
  using assms
  by (simp_all add: InitStep1_def InitStep2_def DeleteFlashRequested_def ApplicationReady_def
      ExitRequested_def Initialized_def)

lemma main_pass_Initialized:
  assumes "Initialized s"
  shows "main_pass T s =
     (if i2cDly s = 0 then tick T (s\<lparr>i2cDly := i2cDly s - 1\<rparr>)
      else Some (Running (s\<lparr>i2cDly := i2cDly s - 1\<rparr>)))"
  using assms status_tests(1) [of s]
  by (simp add: main_pass_def Let_def Initialized_def)

lemma main_pass_Uninitialized:
  assumes "\<not> Initialized s"
  shows "main_pass T s =
     (if ledToggleTimer s = 0xFFFF then
        (if exitDly s = 0
         then Some (Handoff (s\<lparr>ledToggleTimer := 0, led := \<not> led s, exitDly := exitDly s - 1\<rparr>))
         else Some (Running (s\<lparr>ledToggleTimer := 0, led := \<not> led s, exitDly := exitDly s - 1\<rparr>)))
      else Some (Running (s\<lparr>ledToggleTimer := ledToggleTimer s + 1\<rparr>)))"
proof -
  have "TOGGLETIME \<le> ledToggleTimer s \<longleftrightarrow> ledToggleTimer s = 0xFFFF"
    using unsigned_less [of "ledToggleTimer s", where ?'a = nat]
    by (simp add: TOGGLETIME_def word_le_nat_alt word_unat_eq_iff) linarith
  with assms status_tests(1) [of s] show ?thesis
    by (simp add: main_pass_def Let_def Initialized_def)
qed

lemma tick_commit:
  assumes "\<not> ExitRequested s" and "\<not> DeleteFlashRequested s"
  shows "tick T s =
     Some (Running
       ((if unat (pageIX s) = PAGE_SIZE
         then (FlashPage T (flashPageAddr s) (s\<lparr>led := \<not> led s\<rparr>))
                \<lparr>flashPageAddr :=
                    flashPageAddr (FlashPage T (flashPageAddr s) (s\<lparr>led := \<not> led s\<rparr>))
                      + of_nat PAGE_SIZE,
                 pageIX := 0\<rparr>
         else s)\<lparr>i2cDly := I2CDLYTIME\<rparr>))"
  using assms status_tests(2,3,4) [of s]
  by (simp add: tick_def Let_def)


lemma main_pass_commit:
  assumes "commit_due s"
  shows "main_pass T s =
     Some (Running
       ((FlashPage T (flashPageAddr s) (s\<lparr>i2cDly := i2cDly s - 1, led := \<not> led s\<rparr>))
          \<lparr>flashPageAddr :=
              flashPageAddr (FlashPage T (flashPageAddr s)
                               (s\<lparr>i2cDly := i2cDly s - 1, led := \<not> led s\<rparr>))
                + of_nat PAGE_SIZE,
           pageIX := 0, i2cDly := I2CDLYTIME\<rparr>))"
proof -
  let ?s1 = "s\<lparr>i2cDly := i2cDly s - 1\<rparr>"
  from assms have i: "Initialized s" "i2cDly s = 0" "unat (pageIX s) = PAGE_SIZE"
    and e: "\<not> ExitRequested ?s1" "\<not> DeleteFlashRequested ?s1"
    by (simp_all add: commit_due_def tick_due_def ExitRequested_def DeleteFlashRequested_def)
  show ?thesis
    unfolding main_pass_Initialized [OF i(1)] tick_commit [OF e]
    using i(2,3) by simp
qed



lemma page_aligned_iff_mult: "page_aligned a \<longleftrightarrow> (\<exists>c. a = 64 * c)"
proof
  assume "page_aligned a"
  then have "a = page_base a" by (simp add: page_base_aligned)
  also have "\<dots> = push_bit 6 (drop_bit 6 a)"
    unfolding page_base_def mask_63 by (rule bit_eqI) (auto simp add: bit_simps)
  finally have "a = 64 * drop_bit 6 a" by (simp add: push_bit_eq_mult mult.commute)
  then show "\<exists>c. a = 64 * c" ..
next
  assume "\<exists>c. a = 64 * c"
  then obtain c where "a = 64 * c" ..
  then have "a = push_bit 6 c" by (simp add: push_bit_eq_mult mult.commute)
  then show "page_aligned a"
    unfolding page_aligned_def mask_63 by (intro bit_eqI) (simp add: bit_simps)
qed

lemma page_aligned_diff:
  assumes "page_aligned a" and "page_aligned b"
  shows "page_aligned (a - b)"
proof -
  from assms obtain c d where "a = 64 * c" "b = 64 * d"
    unfolding page_aligned_iff_mult by blast
  then have "a - b = 64 * (c - d)" by (simp add: algebra_simps)
  then show ?thesis unfolding page_aligned_iff_mult ..
qed

lemma page_aligned_PAGE_SIZE: "page_aligned (of_nat PAGE_SIZE)"
  by (simp add: page_aligned_def PAGE_SIZE_def)

lemma FlashPage_flash_other:
  assumes "page_base a \<noteq> 0" and "page_base x \<noteq> page_base a"
  shows "flash (FlashPage T a s) x = flash s x"
  using assms
  by (simp add: FlashPage_def Let_def FlashPage_mask FlashRaw_flash page_base_is_aligned)

lemma page_base_64: "page_base (of_nat PAGE_SIZE) = 64" "page_base 0 = 0"
  by (simp_all add: page_base_def PAGE_SIZE_def)

lemma page_zero_iff: "page_base x = 0 \<longleftrightarrow> unat x < 64"
proof -
  have "page_base x = page_base 0 \<longleftrightarrow> unat x div 64 = unat (0::word16) div 64"
    by (rule page_base_eq_iff)
  then show ?thesis by (simp add: page_base_64 div_64_eq_iff [of _ 0, simplified])
qed

lemma DeleteFlash_eq:
  assumes "page_aligned T" and "T \<noteq> 0"
  shows "DeleteFlash T s =
     Some (erase_pages (of_nat PAGE_SIZE) (unat T div 64 - 1)
       (FlashPage T (of_nat PAGE_SIZE)
         (FlashRaw 0 (boot_page_erase 0 (FixResetVector T (ClearPageBuffer s))))))"
proof -
  from assms(1) obtain k where k: "unat T = 64 * k" "k < 1024" by (rule aligned_unat)
  from assms(2) k have "k \<noteq> 0" by (auto simp add: word_unat_eq_iff)
  with k have "unat (of_nat PAGE_SIZE :: word16) + 64 * (unat T div 64 - 1) = unat T"
    by (simp add: PAGE_SIZE_def)
  then show ?thesis
    unfolding DeleteFlash_def Let_def by (rule DeleteFlash_loop_run)
qed

lemma FixResetVector_pageBuffer:
  "pageBuffer (FixResetVector T s)
     = (pageBuffer s)(0 := ucast (reset_vector T AND 0xFF), 1 := ucast (drop_bit 8 (reset_vector T)))"
  by (simp add: FixResetVector_def Let_def pageBuffer_store_def PAGE_SIZE_def)

lemma DeleteFlash_page0_buffer:
  "pageBuffer (FixResetVector T (ClearPageBuffer s)) i
     = (if i = 0 then ucast (reset_vector T AND 0xFF)
        else if i = 1 then ucast (drop_bit 8 (reset_vector T))
        else if i < 64 then 0xFF else pageBuffer s i)"
  by (simp add: FixResetVector_pageBuffer ClearPageBuffer_eq PAGE_SIZE_def)

lemma erased_and: "(0xFF :: byte) AND w = w"
proof -
  have "(0xFF :: byte) = - 1" by simp
  then show ?thesis by (simp only: and.left_neutral)
qed

lemma DeleteFlash_page0:
  "flash (FlashRaw 0 (boot_page_erase 0 (FixResetVector T (ClearPageBuffer s)))) x
     = (if unat x < 64
        then pageBuffer (FixResetVector T (ClearPageBuffer s)) (unat x)
        else flash s x)"
proof -
  have a: "page_aligned 0" by (simp add: page_aligned_def)
  show ?thesis
    by (simp add: FlashRaw_flash [OF a] page_base_64 page_zero_iff unat_and_63 erased_and
        ClearPageBuffer_eq)
qed

lemma DeleteFlash_flash:
  assumes "page_aligned T" and "T \<noteq> 0"
  shows "\<exists>s'. DeleteFlash T s = Some s' \<and> statusRegister s' = statusRegister s \<and>
     (\<forall>x. flash s' x =
        (if x = 0 then ucast (reset_vector T AND 0xFF)
         else if x = 1 then ucast (drop_bit 8 (reset_vector T))
         else if x < T then 0xFF else flash s x))"
proof -
  define s4 where "s4 = FlashRaw 0 (boot_page_erase 0 (FixResetVector T (ClearPageBuffer s)))"
  define s5 where "s5 = FlashPage T (of_nat PAGE_SIZE) s4"
  define n where "n = unat T div 64 - 1"
  define s' where "s' = erase_pages (of_nat PAGE_SIZE) n s5"
  from assms(1) obtain k where k: "unat T = 64 * k" "k < 1024" by (rule aligned_unat)
  from assms(2) k have k0: "k \<noteq> 0" by (auto simp add: word_unat_eq_iff)
  have T: "unat T = 64 + 64 * n" using k k0 by (simp add: n_def)
  have r: "DeleteFlash T s = Some s'"
    unfolding s'_def s5_def s4_def n_def by (rule DeleteFlash_eq [OF assms])
  have st: "statusRegister s' = statusRegister s"
    unfolding s'_def s5_def s4_def
    by (simp add: erase_pages_fields ClearPageBuffer_eq)
  have u64: "unat (of_nat PAGE_SIZE :: word16) = 64" by (simp add: PAGE_SIZE_def)
  have e: "flash s' x = (if 64 \<le> unat x \<and> unat x < unat T then 0xFF else flash s5 x)" for x
  proof -
    have "unat (of_nat PAGE_SIZE :: word16) + 64 * n < 65536"
      using k T by (simp add: u64)
    from erase_pages_flash [OF page_aligned_PAGE_SIZE this, of s5 x]
    show ?thesis unfolding s'_def u64 T by simp
  qed
  have f: "flash s5 x = flash s4 x" if "unat x < 64 \<or> unat T \<le> unat x" for x
  proof (cases "T \<le> page_base (of_nat PAGE_SIZE)")
    case True
    then show ?thesis unfolding s5_def by (simp add: FlashPage_discard)
  next
    case False
    then have "64 < unat T" by (simp add: page_base_64 word_le_nat_alt)
    with T have "128 \<le> unat T" by (cases n) simp_all
    with that have "\<not> (64 \<le> unat x \<and> unat x < 64 + 64)" by auto
    then have "page_base x \<noteq> page_base (of_nat PAGE_SIZE)"
      by (simp add: page_base_eq_aligned [OF page_aligned_PAGE_SIZE] u64)
    then show ?thesis
      unfolding s5_def by (intro FlashPage_flash_other) (simp_all add: page_base_64)
  qed
  have "flash s' x =
        (if x = 0 then ucast (reset_vector T AND 0xFF)
         else if x = 1 then ucast (drop_bit 8 (reset_vector T))
         else if x < T then 0xFF else flash s x)" for x
  proof -
    have x0: "x = 0 \<longleftrightarrow> unat x = 0" and x1: "x = 1 \<longleftrightarrow> unat x = 1"
      by (simp_all add: word_unat_eq_iff)
    consider "unat x < 64" | "64 \<le> unat x" "unat x < unat T" | "unat T \<le> unat x"
      by linarith
    then show ?thesis
    proof cases
      case 1
      with T have "unat x < unat T" by simp
      with 1 show ?thesis
        unfolding e f [OF disjI1 [OF 1]] s4_def DeleteFlash_page0 DeleteFlash_page0_buffer x0 x1
        by (simp add: word_less_nat_alt)
    next
      case 2
      then show ?thesis unfolding e x0 x1 by (simp add: word_less_nat_alt)
    next
      case 3
      with T have "64 \<le> unat x" by simp
      with 3 show ?thesis
        unfolding e f [OF disjI2 [OF 3]] s4_def DeleteFlash_page0 x0 x1
        by (simp add: word_less_nat_alt)
    qed
  qed
  with r st show ?thesis by blast
qed

lemma instruction_of_word: "instruction (ucast (w AND 0xFF)) (ucast (drop_bit 8 w)) = (w :: word16)"
  unfolding instruction_or num_masks
  by (rule bit_eqI) (auto simp add: bit_simps)

lemma rjmp_opcode_add:
  assumes "y < 2 ^ 12"
  shows "is_rjmp (0xC000 + y)"
proof -
  from assms have y: "y = y AND mask 12" by (simp add: less_mask_eq)
  have "0xC000 AND (y AND mask 12) = 0"
    unfolding num_masks by (rule bit_eqI) (auto simp add: bit_simps)
  then have "0xC000 + (y AND mask 12) = 0xC000 OR (y AND mask 12)"
    by (rule disjunctive_add_eq_or)
  moreover have "(0xC000 OR (y AND mask 12)) AND 0xF000 = 0xC000"
    unfolding num_masks by (rule bit_eqI) (auto simp add: bit_simps)
  ultimately show ?thesis using y by (simp add: is_rjmp_def)
qed

lemma reset_vector_offset:
  assumes "page_aligned T" and "T \<noteq> 0" and "T \<le> 0x2000"
  shows "T div 2 - 1 < 2 ^ 12"
proof -
  from assms(1) obtain k where k: "unat T = 64 * k" "k < 1024" by (rule aligned_unat)
  from assms(2) k have k0: "k \<noteq> 0" by (auto simp add: word_unat_eq_iff)
  from assms(3) k have k1: "k \<le> 128" by (simp add: word_le_nat_alt)
  have h: "unat (T div 2) = 32 * k" by (simp add: unat_div k)
  with k0 have "T div 2 \<noteq> 0" by (auto simp add: word_unat_eq_iff)
  then have "unat (T div 2 - 1) = 32 * k - 1" by (simp add: unat_minus_one h)
  with k0 k1 show ?thesis by (simp add: word_less_nat_alt)
qed

lemma reset_vector_valid:
  assumes "page_aligned T" and "T \<noteq> 0" and "T \<le> 0x2000"
  shows "is_rjmp (reset_vector T)" and "rjmp_target 0 (reset_vector T) = ucast (T div 2)"
proof -
  have r: "reset_vector T = 0xC000 + (T div 2 - 1)" by (simp add: reset_vector_def)
  show "is_rjmp (reset_vector T)"
    unfolding r by (rule rjmp_opcode_add) (rule reset_vector_offset [OF assms])
  have "(ucast (reset_vector T) :: 12 word) = ucast (0xC000 :: word16) + (ucast (T div 2) - ucast (1 :: word16))"
    unfolding r by (simp only: pc_add pc_diff)
  then show "rjmp_target 0 (reset_vector T) = ucast (T div 2)"
    by (simp add: rjmp_target_def)
qed

lemma example_start_ok:
  "page_aligned example_start" "example_start \<noteq> 0" "example_start \<le> 0x2000"
  by (simp_all add: page_aligned_def example_start_def)

lemma DeleteFlash_loop_fields:
  assumes "DeleteFlash_loop T a s = Some s'"
  shows "statusRegister s' = statusRegister s \<and> pageIX s' = pageIX s \<and>
     flashPageAddr s' = flashPageAddr s"
proof (rule DeleteFlash_loop.raw_induct
    [where P = "\<lambda>T a s s'. statusRegister s' = statusRegister s \<and> pageIX s' = pageIX s \<and>
                             flashPageAddr s' = flashPageAddr s", OF _ assms])
  fix f :: "word16 \<Rightarrow> word16 \<Rightarrow> state \<Rightarrow> state option" and T a :: word16 and s s' :: state
  assume IH: "\<And>a s b y. f a s b = Some y \<Longrightarrow>
      statusRegister y = statusRegister b \<and> pageIX y = pageIX b \<and>
      flashPageAddr y = flashPageAddr b"
    and r: "(if a < T then f T (a + of_nat PAGE_SIZE) (boot_page_erase a s) else Some s) = Some s'"
  show "statusRegister s' = statusRegister s \<and> pageIX s' = pageIX s \<and>
      flashPageAddr s' = flashPageAddr s"
  proof (cases "a < T")
    case True
    with r have "f T (a + of_nat PAGE_SIZE) (boot_page_erase a s) = Some s'" by simp
    from IH [OF this] show ?thesis by simp
  next
    case False
    with r show ?thesis by simp
  qed
qed

lemma ClearPageBuffer_fields [simp]:
  "statusRegister (ClearPageBuffer s) = statusRegister s"
  "pageIX (ClearPageBuffer s) = pageIX s"
  "flashPageAddr (ClearPageBuffer s) = flashPageAddr s"
  by (simp_all add: ClearPageBuffer_eq)

lemma DeleteFlash_fields:
  assumes "DeleteFlash T s = Some s'"
  shows "statusRegister s' = statusRegister s" and "pageIX s' = pageIX s"
    and "flashPageAddr s' = flashPageAddr s"
  using DeleteFlash_loop_fields [OF assms [unfolded DeleteFlash_def Let_def]]
  by (simp_all add: FlashPage_flashPageAddr page_base_64)

lemma tick_status:
  assumes "tick T s = Some out"
  shows "statusRegister (state_of out) = statusRegister s"
  using assms
  by (auto simp add: tick_def Let_def dest!: DeleteFlash_fields(1) split: if_splits option.splits)

lemma main_pass_status:
  assumes "main_pass T s = Some out"
  shows "statusRegister (state_of out) = statusRegister s"
  using assms
  by (auto simp add: main_pass_def Let_def dest: tick_status split: if_splits)


section \<open>Lemmas about the two handlers\<close>

lemma command_store_None: "fold (\<lambda>i. command_store i (f i)) ns None = None"
  by (induction ns) (simp_all add: command_store_def)

lemma ReceiveEvent_fold:
  "fold (\<lambda>i. command_store i (bs ! i)) [0..<n] (Some s) =
     (if n \<le> COMMAND_SIZE
      then Some (s\<lparr>command := (\<lambda>i. if i < n then bs ! i else command s i)\<rparr>)
      else None)"
proof (induction n)
  case 0
  show ?case by simp
next
  case (Suc n)
  have e: "(command s)(n := bs ! n) = (\<lambda>i. if i < Suc n then bs ! i else command s i)"
    if "n = 0" using that by (auto simp add: fun_eq_iff)
  show ?case using Suc
    by (auto simp add: command_store_def fun_eq_iff less_Suc_eq intro!: state.equality)
qed

lemma ReceiveEvent_eq:
  "ReceiveEvent bs s =
     (if length bs \<le> COMMAND_SIZE
      then Some (s\<lparr>commandLength := of_nat (length bs),
                   command := (\<lambda>i. if i < length bs then bs ! i else command s i)\<rparr>)
      else None)"
  by (simp add: ReceiveEvent_def ReceiveEvent_fold cong: if_cong)

lemma ReceiveEvent_fields:
  assumes "ReceiveEvent bs s = Some s'"
  shows "statusRegister s' = statusRegister s" "pageIX s' = pageIX s"
    "flashPageAddr s' = flashPageAddr s" "flash s' = flash s" "i2cDly s' = i2cDly s"
    "tx s' = tx s" "spm_log s' = spm_log s" "exitDly s' = exitDly s"
    "ledToggleTimer s' = ledToggleTimer s" "led s' = led s" "pageBuffer s' = pageBuffer s"
    "length bs \<le> COMMAND_SIZE" "commandLength s' = of_nat (length bs)"
    "\<And>i. i < length bs \<Longrightarrow> command s' i = bs ! i"
  using assms by (auto simp add: ReceiveEvent_eq split: if_splits)

lemma WRITPAGE_fold_None: "fold WRITPAGE_step ns None = None"
  by (induction ns) (simp_all add: WRITPAGE_step_def)

lemma pageIX_next: "unat (x :: byte) < PAGE_SIZE \<Longrightarrow> unat (x + 1) = unat x + 1"
  by (simp add: PAGE_SIZE_def unat_add_lem [THEN iffD1])

lemma WRITPAGE_fold_room:
  "unat (pageIX s) + length ns \<le> PAGE_SIZE \<Longrightarrow>
   \<exists>pb. fold WRITPAGE_step ns (Some (r, s)) =
     Some (r + sum_list (map (command s) ns),
           s\<lparr>pageBuffer := pb, pageIX := pageIX s + of_nat (length ns)\<rparr>)"
proof (induction ns arbitrary: r s)
  case Nil
  have "s\<lparr>pageBuffer := pageBuffer s, pageIX := pageIX s\<rparr> = s" by simp
  then show ?case by (auto intro: exI [of _ "pageBuffer s"])
next
  case (Cons i ns)
  let ?s1 = "(pageBuffer_store (unat (pageIX s)) (command s i) s)\<lparr>pageIX := pageIX s + 1\<rparr>"
  from Cons.prems have lt: "unat (pageIX s) < PAGE_SIZE" by simp
  have "unat (pageIX ?s1) + length ns \<le> PAGE_SIZE"
    using Cons.prems pageIX_next [OF lt] by simp
  from Cons.IH [OF this, of "r + command s i"] obtain pb where
    "fold WRITPAGE_step ns (Some (r + command s i, ?s1)) =
       Some (r + command s i + sum_list (map (command ?s1) ns),
             ?s1\<lparr>pageBuffer := pb, pageIX := pageIX ?s1 + of_nat (length ns)\<rparr>)"
    by blast
  then have "fold WRITPAGE_step (i # ns) (Some (r, s)) =
       Some (r + sum_list (map (command s) (i # ns)),
             s\<lparr>pageBuffer := pb, pageIX := pageIX s + of_nat (length (i # ns))\<rparr>)"
    using lt by (simp add: WRITPAGE_step_def pageBuffer_store_def add.assoc add.commute)
  then show ?case by blast
qed

lemma WRITPAGE_fold_full:
  "\<not> unat (pageIX s) + length ns \<le> PAGE_SIZE \<Longrightarrow> ns \<noteq> [] \<Longrightarrow>
   fold WRITPAGE_step ns (Some (r, s)) = None"
proof (induction ns arbitrary: r s)
  case Nil
  then show ?case by simp
next
  case (Cons i ns)
  show ?case
  proof (cases "unat (pageIX s) < PAGE_SIZE")
    case True
    let ?s1 = "(pageBuffer_store (unat (pageIX s)) (command s i) s)\<lparr>pageIX := pageIX s + 1\<rparr>"
    have a: "\<not> unat (pageIX ?s1) + length ns \<le> PAGE_SIZE"
      using Cons.prems pageIX_next [OF True] by simp
    have b: "ns \<noteq> []" using Cons.prems(1) True by auto
    have "WRITPAGE_step i (Some (r, s)) = Some (r + command s i, ?s1)"
      using True by (simp add: WRITPAGE_step_def)
    with Cons.IH [OF a b] show ?thesis by simp
  next
    case False
    then have "WRITPAGE_step i (Some (r, s)) = None" by (simp add: WRITPAGE_step_def)
    then show ?thesis by (simp add: WRITPAGE_fold_None)
  qed
qed

lemma bit_set_flag: "bit (w OR bit_mask k :: byte) n \<longleftrightarrow> bit w n \<or> (n = k \<and> n < 8)"
  by (auto simp add: bit_mask_def bit_simps)

lemma bit_clear_set_flag:
  "bit ((w AND NOT (bit_mask k)) OR bit_mask j :: byte) n
     \<longleftrightarrow> (bit w n \<and> n \<noteq> k) \<or> (n = j \<and> n < 8)"
  by (auto simp add: bit_mask_def bit_simps dest: bit_imp_le_length)

lemma bit_clear_flag: "bit (w AND NOT (bit_mask k) :: byte) n \<longleftrightarrow> bit w n \<and> n \<noteq> k"
  by (auto simp add: bit_mask_def bit_simps dest: bit_imp_le_length)


lemma opcodes_distinctD:
  assumes "opcodes_distinct oc"
  shows "GETTMNLV oc \<noteq> EXITTMNL oc" "GETTMNLV oc \<noteq> DELFLASH oc" "GETTMNLV oc \<noteq> STPGADDR oc"
    "GETTMNLV oc \<noteq> WRITPAGE oc" "GETTMNLV oc \<noteq> INITTINY oc"
    "EXITTMNL oc \<noteq> DELFLASH oc" "EXITTMNL oc \<noteq> STPGADDR oc" "EXITTMNL oc \<noteq> WRITPAGE oc"
    "EXITTMNL oc \<noteq> INITTINY oc" "DELFLASH oc \<noteq> STPGADDR oc" "DELFLASH oc \<noteq> WRITPAGE oc"
    "DELFLASH oc \<noteq> INITTINY oc" "STPGADDR oc \<noteq> WRITPAGE oc" "STPGADDR oc \<noteq> INITTINY oc"
    "WRITPAGE oc \<noteq> INITTINY oc"
  using assms by (auto simp add: opcodes_distinct_def)


lemma transmit_untouched [simp]:
  "i2cDly (transmit bs s) = i2cDly s" "spm_log (transmit bs s) = spm_log s"
  "exitDly (transmit bs s) = exitDly s" "ledToggleTimer (transmit bs s) = ledToggleTimer s"
  "led (transmit bs s) = led s" "spm_temp (transmit bs s) = spm_temp s"
  unfolding transmit_def
  by (induction bs arbitrary: s; simp add: UsiTwiTransmitByte_def)+

lemma example_opcodes_distinct: "opcodes_distinct example_opcodes"
  by (simp add: opcodes_distinct_def example_opcodes_def)

lemma example_opcode_values:
  "GETTMNLV example_opcodes = 0x82" "EXITTMNL example_opcodes = 0x86"
  "DELFLASH example_opcodes = 0x83" "STPGADDR example_opcodes = 0x84"
  "WRITPAGE example_opcodes = 0x85" "INITTINY example_opcodes = 0x81"
  by (simp_all add: example_opcodes_def)

lemma flags_of_status:
  "InitStep1 s \<longleftrightarrow> bit (statusRegister s) 0" "InitStep2 s \<longleftrightarrow> bit (statusRegister s) 1"
  "DeleteFlashRequested s \<longleftrightarrow> bit (statusRegister s) 2"
  "ApplicationReady s \<longleftrightarrow> bit (statusRegister s) 3"
  "ExitRequested s \<longleftrightarrow> bit (statusRegister s) 4"
  by (simp_all add: InitStep1_def InitStep2_def DeleteFlashRequested_def ApplicationReady_def
      ExitRequested_def SR_INIT_1_def SR_INIT_2_def SR_DEL_FLASH_def SR_APP_READY_def
      SR_EXIT_TML_def)

lemma and_mask_6_bits: "(c :: 'a::len word) AND mask 6 = 0 \<longleftrightarrow> (\<forall>n<6. \<not> bit c n)"
proof
  assume "c AND mask 6 = 0"
  then have "\<not> bit (c AND mask 6) n" for n by simp
  then show "\<forall>n<6. \<not> bit c n" by (auto simp add: bit_simps dest: bit_imp_le_length)
next
  assume a: "\<forall>n<6. \<not> bit c n"
  show "c AND mask 6 = 0" by (rule bit_eqI) (use a in \<open>auto simp add: bit_simps\<close>)
qed

lemma byte_and_63: "(c :: byte) AND 63 = 0 \<longleftrightarrow> (\<forall>n<6. \<not> bit c n)"
proof -
  have m: "(63 :: byte) = mask 6" by (simp add: mask_eq_exp_minus_1)
  show ?thesis unfolding m by (rule and_mask_6_bits)
qed

lemma page_aligned_bits: "page_aligned a \<longleftrightarrow> (\<forall>n<6. \<not> bit a n)"
  unfolding page_aligned_def mask_63 by (rule and_mask_6_bits)

lemma STPGADDR_aligned:
  "page_aligned (push_bit 8 (ucast (c1 :: byte)) + ucast (c2 :: byte)) \<longleftrightarrow> c2 AND 63 = 0"
proof -
  have "push_bit 8 (ucast c1) + ucast c2 = instruction c2 c1" by (simp add: instruction_def)
  then show ?thesis
    unfolding page_aligned_bits byte_and_63 by (simp add: instruction_or bit_simps)
qed

lemma page_aligned_add_page:
  assumes "page_aligned a"
  shows "page_aligned (a + of_nat PAGE_SIZE)"
proof -
  from assms obtain c where "a = 64 * c" unfolding page_aligned_iff_mult ..
  then have "a + of_nat PAGE_SIZE = 64 * (c + 1)" by (simp add: PAGE_SIZE_def algebra_simps)
  then show ?thesis unfolding page_aligned_iff_mult ..
qed

lemma DeleteFlash_fields_all:
  assumes "DeleteFlash T s = Some s'"
  shows "statusRegister s' = statusRegister s \<and> pageIX s' = pageIX s \<and>
    flashPageAddr s' = flashPageAddr s"
  using DeleteFlash_fields [OF assms] by simp

lemma tick_flashPageAddr:
  assumes "tick T s = Some (Running s')"
  shows "flashPageAddr s' = flashPageAddr s
       \<or> (unat (pageIX s) = PAGE_SIZE \<and>
          (flashPageAddr s' = flashPageAddr s + of_nat PAGE_SIZE \<or>
           flashPageAddr s' = of_nat PAGE_SIZE))"
  using assms
  by (auto simp add: tick_def Let_def FlashPage_flashPageAddr
      dest!: DeleteFlash_fields_all split: if_splits option.splits)

lemma main_pass_flashPageAddr:
  assumes "main_pass T s = Some (Running s')"
  shows "flashPageAddr s' = flashPageAddr s
       \<or> (unat (pageIX s) = PAGE_SIZE \<and>
          (flashPageAddr s' = flashPageAddr s + of_nat PAGE_SIZE \<or>
           flashPageAddr s' = of_nat PAGE_SIZE))"
  using assms
  by (auto simp add: main_pass_def Let_def dest!: tick_flashPageAddr split: if_splits)

lemma tick_pageIX:
  assumes "tick T s = Some (Running s')"
  shows "pageIX s' = pageIX s \<or> pageIX s' = 0"
  using assms
  by (auto simp add: tick_def Let_def dest!: DeleteFlash_fields_all
      split: if_splits option.splits)

lemma main_pass_pageIX:
  assumes "main_pass T s = Some (Running s')"
  shows "pageIX s' = pageIX s \<or> pageIX s' = 0"
  using assms
  by (auto simp add: main_pass_def Let_def dest!: tick_pageIX split: if_splits)

lemma pageIX_chunk_fits:
  assumes "unat (pageIX s) + RXDATASIZE \<le> PAGE_SIZE"
  shows "unat (pageIX s + 8) \<le> PAGE_SIZE"
proof -
  from assms have "unat (pageIX s) + unat (8 :: byte) < 256"
    by (simp add: RXDATASIZE_def PAGE_SIZE_def)
  then have "unat (pageIX s + 8) = unat (pageIX s) + 8"
    using unat_add_lem [of "pageIX s" 8] by simp
  with assms show ?thesis by (simp add: RXDATASIZE_def)
qed

lemma idle_passes_trans:
  "idle_passes T s' s'' \<Longrightarrow> idle_passes T s s' \<Longrightarrow> idle_passes T s s''"
  by (induction rule: idle_passes.induct) (auto intro: idle_passes.intros)

lemma idle_timer:
  "\<not> Initialized s \<Longrightarrow> 65535 - unat (ledToggleTimer s) = n \<Longrightarrow>
   idle_passes T s (s\<lparr>ledToggleTimer := 0xFFFF\<rparr>)"
proof (induction n arbitrary: s)
  case 0
  have "unat (ledToggleTimer s) < 65536"
    using unsigned_less [of "ledToggleTimer s", where ?'a = nat] by simp
  with 0 have "unat (ledToggleTimer s) = 65535" by simp
  then have "ledToggleTimer s = 0xFFFF" by (simp add: word_unat_eq_iff)
  then have "s\<lparr>ledToggleTimer := 0xFFFF\<rparr> = s" by simp
  then show ?case by (simp add: idle_refl)
next
  case (Suc n)
  let ?s1 = "s\<lparr>ledToggleTimer := ledToggleTimer s + 1\<rparr>"
  from Suc.prems have lt: "unat (ledToggleTimer s) < 65535" by simp
  then have ne: "ledToggleTimer s \<noteq> 0xFFFF" by (auto simp add: word_unat_eq_iff)
  from lt have u: "unat (ledToggleTimer s + 1) = unat (ledToggleTimer s) + 1"
    by (simp add: unat_add_lem [THEN iffD1])
  have p: "main_pass T s = Some (Running ?s1)"
    using ne by (simp add: main_pass_Uninitialized [OF Suc.prems(1)])
  have i: "\<not> Initialized ?s1" using Suc.prems(1)
    by (simp add: Initialized_def InitStep1_def InitStep2_def)
  have "65535 - unat (ledToggleTimer ?s1) = n" using Suc.prems(2) u by simp
  from Suc.IH [OF i this] have "idle_passes T ?s1 (s\<lparr>ledToggleTimer := 0xFFFF\<rparr>)" by simp
  moreover have "idle_passes T s ?s1" using idle_step [OF idle_refl p] .
  ultimately show ?case by (rule idle_passes_trans)
qed

lemma idle_countdown:
  "\<not> Initialized s \<Longrightarrow> unat (exitDly s) = n \<Longrightarrow>
   idle_passes T s
     (s\<lparr>ledToggleTimer := 0xFFFF, exitDly := 0, led := (if even n then led s else \<not> led s)\<rparr>)"
proof (induction n arbitrary: s)
  case 0
  then have "exitDly s = 0" by (simp add: unat_eq_0)
  then have "s\<lparr>ledToggleTimer := 0xFFFF, exitDly := 0, led := led s\<rparr> = s\<lparr>ledToggleTimer := 0xFFFF\<rparr>"
    by simp
  with idle_timer [OF 0(1) refl, of T] show ?case by simp
next
  case (Suc n)
  let ?s1 = "s\<lparr>ledToggleTimer := 0xFFFF\<rparr>"
  let ?s2 = "?s1\<lparr>ledToggleTimer := 0, led := \<not> led ?s1, exitDly := exitDly ?s1 - 1\<rparr>"
  have i1: "\<not> Initialized ?s1" using Suc.prems(1)
    by (simp add: Initialized_def InitStep1_def InitStep2_def)
  have i2: "\<not> Initialized ?s2" using Suc.prems(1)
    by (simp add: Initialized_def InitStep1_def InitStep2_def)
  from Suc.prems(2) have ne: "exitDly s \<noteq> 0" by auto
  from Suc.prems(2) have u: "unat (exitDly ?s2) = n" by (simp add: unat_minus_one ne)
  have p: "main_pass T ?s1 = Some (Running ?s2)"
    using ne by (simp add: main_pass_Uninitialized [OF i1])
  have a: "idle_passes T s ?s1" by (rule idle_timer [OF Suc.prems(1) refl])
  have b: "idle_passes T s ?s2" by (rule idle_step [OF a p])
  have e: "?s2\<lparr>ledToggleTimer := 0xFFFF, exitDly := 0,
                led := (if even n then led ?s2 else \<not> led ?s2)\<rparr>
      = s\<lparr>ledToggleTimer := 0xFFFF, exitDly := 0,
            led := (if even (Suc n) then led s else \<not> led s)\<rparr>"
    by (cases "even n") simp_all
  from Suc.IH [OF i2 u]
  have "idle_passes T ?s2
     (s\<lparr>ledToggleTimer := 0xFFFF, exitDly := 0, led := (if even (Suc n) then led s else \<not> led s)\<rparr>)"
    unfolding e .
  then show ?case using b by (rule idle_passes_trans)
qed

lemma main_pass_init_flags:
  assumes "main_pass T s = Some out"
  shows "InitStep1 (state_of out) \<longleftrightarrow> InitStep1 s" "InitStep2 (state_of out) \<longleftrightarrow> InitStep2 s"
  using main_pass_status [OF assms] by (simp_all add: InitStep1_def InitStep2_def)

lemma idle_passes_Initialized:
  "idle_passes T s s' \<Longrightarrow> Initialized s' \<longleftrightarrow> Initialized s"
proof (induction rule: idle_passes.induct)
  case (idle_refl s)
  show ?case by simp
next
  case (idle_step s s' s'')
  from main_pass_init_flags [OF idle_step.hyps(2)] idle_step.IH
  show ?case by (simp add: Initialized_def)
qed

lemma Uninitialized_hands_off:
  assumes "\<not> Initialized s"
  shows "\<exists>s' s''. idle_passes T s s' \<and> main_pass T s' = Some (Handoff s'')"
proof -
  let ?s' = "s\<lparr>ledToggleTimer := 0xFFFF, exitDly := 0,
               led := (if even (unat (exitDly s)) then led s else \<not> led s)\<rparr>"
  have i: "idle_passes T s ?s'" by (rule idle_countdown [OF assms refl])
  have "\<not> Initialized ?s'" using assms
    by (simp add: Initialized_def InitStep1_def InitStep2_def)
  from main_pass_Uninitialized [OF this, of T]
  have "\<exists>s''. main_pass T ?s' = Some (Handoff s'')" by simp
  with i show ?thesis by blast
qed

lemma init_state_flags: "\<not> InitStep1 (init_state fl)" "\<not> InitStep2 (init_state fl)"
  unfolding flags_of_status by (simp_all add: init_state_def bit_mask_simps)

lemma WRITPAGE_loop:
  "\<exists>pb. fold WRITPAGE_step [1..<RXDATASIZE + 1] (Some (0, s)) =
     (if unat (pageIX s) + RXDATASIZE \<le> PAGE_SIZE
      then Some (chunk_sum s, s\<lparr>pageBuffer := pb, pageIX := pageIX s + 8\<rparr>)
      else None)"
proof (cases "unat (pageIX s) + RXDATASIZE \<le> PAGE_SIZE")
  case True
  then have "unat (pageIX s) + length [1..<RXDATASIZE + 1] \<le> PAGE_SIZE" by simp
  from WRITPAGE_fold_room [OF this, of 0] True show ?thesis
    by (simp add: chunk_sum_def RXDATASIZE_def)
next
  case False
  then have "\<not> unat (pageIX s) + length [1..<RXDATASIZE + 1] \<le> PAGE_SIZE" by simp
  moreover have "[1..<RXDATASIZE + 1] \<noteq> []" by (simp add: RXDATASIZE_def)
  ultimately have "fold WRITPAGE_step [1..<RXDATASIZE + 1] (Some (0, s)) = None"
    by (rule WRITPAGE_fold_full)
  with False show ?thesis by simp
qed

lemma RequestEvent_eq:
  "\<exists>pb. RequestEvent oc T s =
     (if command s 0 = GETTMNLV oc then
        Some (transmit [NOT (command s 0), 78, 66, 84, 0, 7,
                        ucast (drop_bit 8 (T AND 0xFF00)), ucast (T AND 0xFF)]
                (s\<lparr>statusRegister := statusRegister s OR bit_mask SR_INIT_2\<rparr>))
      else if command s 0 = EXITTMNL oc then
        Some ((transmit [NOT (command s 0)] s)
                \<lparr>statusRegister := statusRegister s OR bit_mask SR_EXIT_TML\<rparr>)
      else if command s 0 = DELFLASH oc then
        Some ((transmit [NOT (command s 0)] s)
                \<lparr>statusRegister := statusRegister s OR bit_mask SR_DEL_FLASH\<rparr>)
      else if command s 0 = STPGADDR oc then
        Some (transmit [NOT (command s 0), command s 1 + command s 2]
                (s\<lparr>flashPageAddr := push_bit 8 (ucast (command s 1)) + ucast (command s 2)\<rparr>))
      else if command s 0 = WRITPAGE oc then
        (if unat (pageIX s) + RXDATASIZE \<le> PAGE_SIZE then
           Some (transmit [NOT (command s 0), chunk_sum s]
                   (s\<lparr>pageBuffer := pb, pageIX := pageIX s + 8,
                       statusRegister :=
                         (if chunk_sum s \<noteq> command s (RXDATASIZE + 1)
                          then (statusRegister s AND NOT (bit_mask SR_APP_READY))
                                 OR bit_mask SR_DEL_FLASH
                          else statusRegister s)\<rparr>))
         else None)
      else if command s 0 = INITTINY oc then
        Some (transmit [NOT (command s 0)]
                (s\<lparr>statusRegister := statusRegister s OR bit_mask SR_INIT_1\<rparr>))
      else
        Some (transmit (replicate (unat (commandLength s)) (UNKNOWNC oc)) s))"
proof -
  from WRITPAGE_loop [of s] obtain pb where
    f: "fold WRITPAGE_step [1..<RXDATASIZE + 1] (Some (0, s)) =
     (if unat (pageIX s) + RXDATASIZE \<le> PAGE_SIZE
      then Some (chunk_sum s, s\<lparr>pageBuffer := pb, pageIX := pageIX s + 8\<rparr>)
      else None)" ..
  have e: "s\<lparr>pageBuffer := pb, pageIX := pageIX s + 8, statusRegister := statusRegister s\<rparr>
      = s\<lparr>pageBuffer := pb, pageIX := pageIX s + 8\<rparr>" by simp
  show ?thesis
    unfolding RequestEvent_def Let_def f
    by (rule exI [of _ pb]) (simp add: e)
qed

lemma RequestEvent_untouched:
  assumes "RequestEvent oc T s = Some s'"
  shows "i2cDly s' = i2cDly s" "flash s' = flash s" "spm_log s' = spm_log s"
    "exitDly s' = exitDly s" "ledToggleTimer s' = ledToggleTimer s" "led s' = led s"
    "command s' = command s" "spm_temp s' = spm_temp s"
proof -
  from RequestEvent_eq [of oc T s] obtain pb where e: "RequestEvent oc T s =
     (if command s 0 = GETTMNLV oc then
        Some (transmit [NOT (command s 0), 78, 66, 84, 0, 7,
                        ucast (drop_bit 8 (T AND 0xFF00)), ucast (T AND 0xFF)]
                (s\<lparr>statusRegister := statusRegister s OR bit_mask SR_INIT_2\<rparr>))
      else if command s 0 = EXITTMNL oc then
        Some ((transmit [NOT (command s 0)] s)
                \<lparr>statusRegister := statusRegister s OR bit_mask SR_EXIT_TML\<rparr>)
      else if command s 0 = DELFLASH oc then
        Some ((transmit [NOT (command s 0)] s)
                \<lparr>statusRegister := statusRegister s OR bit_mask SR_DEL_FLASH\<rparr>)
      else if command s 0 = STPGADDR oc then
        Some (transmit [NOT (command s 0), command s 1 + command s 2]
                (s\<lparr>flashPageAddr := push_bit 8 (ucast (command s 1)) + ucast (command s 2)\<rparr>))
      else if command s 0 = WRITPAGE oc then
        (if unat (pageIX s) + RXDATASIZE \<le> PAGE_SIZE then
           Some (transmit [NOT (command s 0), chunk_sum s]
                   (s\<lparr>pageBuffer := pb, pageIX := pageIX s + 8,
                       statusRegister :=
                         (if chunk_sum s \<noteq> command s (RXDATASIZE + 1)
                          then (statusRegister s AND NOT (bit_mask SR_APP_READY))
                                 OR bit_mask SR_DEL_FLASH
                          else statusRegister s)\<rparr>))
         else None)
      else if command s 0 = INITTINY oc then
        Some (transmit [NOT (command s 0)]
                (s\<lparr>statusRegister := statusRegister s OR bit_mask SR_INIT_1\<rparr>))
      else
        Some (transmit (replicate (unat (commandLength s)) (UNKNOWNC oc)) s))" ..
  from assms [unfolded e]
  show "i2cDly s' = i2cDly s" "flash s' = flash s" "spm_log s' = spm_log s"
    "exitDly s' = exitDly s" "ledToggleTimer s' = ledToggleTimer s" "led s' = led s"
    "command s' = command s" "spm_temp s' = spm_temp s"
    by (auto split: if_split_asm)
qed

lemma RequestEvent_pageIX:
  assumes "RequestEvent oc T s = Some s'"
  shows "pageIX s' = pageIX s \<or>
   (command s 0 = WRITPAGE oc \<and> unat (pageIX s) + RXDATASIZE \<le> PAGE_SIZE \<and>
    pageIX s' = pageIX s + 8)"
  using RequestEvent_eq [of oc T s] assms by (elim exE) (auto split: if_split_asm)

lemma RequestEvent_flashPageAddr:
  assumes "RequestEvent oc T s = Some s'"
  shows "flashPageAddr s' = flashPageAddr s \<or>
   (command s 0 = STPGADDR oc \<and>
    flashPageAddr s' = push_bit 8 (ucast (command s 1)) + ucast (command s 2))"
  using RequestEvent_eq [of oc T s] assms by (elim exE) (auto split: if_split_asm)

lemma RequestEvent_status:
  assumes "RequestEvent oc T s = Some s'"
  shows "statusRegister s' =
     (if command s 0 = GETTMNLV oc then statusRegister s OR bit_mask SR_INIT_2
      else if command s 0 = EXITTMNL oc then statusRegister s OR bit_mask SR_EXIT_TML
      else if command s 0 = DELFLASH oc then statusRegister s OR bit_mask SR_DEL_FLASH
      else if command s 0 = STPGADDR oc then statusRegister s
      else if command s 0 = WRITPAGE oc then
        (if chunk_sum s \<noteq> command s (RXDATASIZE + 1)
         then (statusRegister s AND NOT (bit_mask SR_APP_READY)) OR bit_mask SR_DEL_FLASH
         else statusRegister s)
      else if command s 0 = INITTINY oc then statusRegister s OR bit_mask SR_INIT_1
      else statusRegister s)"
  using RequestEvent_eq [of oc T s] assms by (elim exE) (auto split: if_split_asm)

lemma RequestEvent_defined:
  "(\<exists>s'. RequestEvent oc T s = Some s') \<longleftrightarrow>
   (command s 0 \<noteq> GETTMNLV oc \<and> command s 0 \<noteq> EXITTMNL oc \<and> command s 0 \<noteq> DELFLASH oc \<and>
    command s 0 \<noteq> STPGADDR oc \<and> command s 0 = WRITPAGE oc
      \<longrightarrow> unat (pageIX s) + RXDATASIZE \<le> PAGE_SIZE)"
  using RequestEvent_eq [of oc T s] by (elim exE) (auto split: if_split_asm)



lemma reachable_pageIX:
  "reachable_if G oc T s \<Longrightarrow> unat (pageIX s) \<le> PAGE_SIZE"
proof (induction rule: reachable_if.induct)
  case (start fl)
  show ?case by (simp add: init_state_def)
next
  case (receive s bs s')
  from ReceiveEvent_fields(2) [OF receive.hyps(2)] receive.IH show ?case by simp
next
  case (request s s')
  from RequestEvent_pageIX [OF request.hyps(3)] request.IH pageIX_chunk_fits [of s]
  show ?case by auto
next
  case (pass s s')
  from main_pass_pageIX [OF pass.hyps(2)] pass.IH show ?case by auto
qed

lemma exchange_Some:
  assumes "exchange oc T bs s = Some s'"
  obtains s1 where "ReceiveEvent bs s = Some s1" and "RequestEvent oc T s1 = Some s'"
  using assms by (auto simp add: exchange_def split: option.splits)

lemma reachable_exchange:
  assumes "reachable_if G oc T s" and "exchange oc T bs s = Some s'"
    and "\<And>s1. ReceiveEvent bs s = Some s1 \<Longrightarrow> RequestEvent oc T s1 = Some s' \<Longrightarrow> G s1"
  shows "reachable_if G oc T s'"
proof -
  from assms(2) obtain s1 where r: "ReceiveEvent bs s = Some s1"
    and q: "RequestEvent oc T s1 = Some s'" by (rule exchange_Some)
  from assms(1) r have "reachable_if G oc T s1" by (rule reachable_if.receive)
  from this assms(3) [OF r q] q show ?thesis by (rule reachable_if.request)
qed

lemma reachable_exchanges:
  assumes "exchanges oc T fs s = Some s'" and "reachable_if G oc T s"
    and "\<And>bs s0 s1 s2. bs \<in> set fs \<Longrightarrow> ReceiveEvent bs s0 = Some s1 \<Longrightarrow>
           RequestEvent oc T s1 = Some s2 \<Longrightarrow> G s1"
  shows "reachable_if G oc T s'"
  using assms
proof (induction fs arbitrary: s)
  case Nil
  then show ?case by simp
next
  case (Cons bs fs)
  from Cons.prems(1) obtain s1 where e: "exchange oc T bs s = Some s1"
    and r: "exchanges oc T fs s1 = Some s'"
    by (auto split: option.splits)
  have "reachable_if G oc T s1"
    using Cons.prems(2) e by (rule reachable_exchange) (rule Cons.prems(3), simp_all)
  from this show ?case by (rule Cons.IH [OF r]) (rule Cons.prems(3), simp_all)
qed

lemma exchange_untouched:
  assumes "exchange oc T bs s = Some s'"
  shows "i2cDly s' = i2cDly s" "flash s' = flash s" "spm_log s' = spm_log s"
    "exitDly s' = exitDly s" "ledToggleTimer s' = ledToggleTimer s" "led s' = led s"
proof -
  from assms obtain s1 where r: "ReceiveEvent bs s = Some s1"
    and q: "RequestEvent oc T s1 = Some s'" by (rule exchange_Some)
  from ReceiveEvent_fields [OF r] RequestEvent_untouched [OF q]
  show "i2cDly s' = i2cDly s" "flash s' = flash s" "spm_log s' = spm_log s"
    "exitDly s' = exitDly s" "ledToggleTimer s' = ledToggleTimer s" "led s' = led s"
    by simp_all
qed

lemma exchange_frame:
  assumes "opcodes_distinct oc" and "length (b # bs) \<le> COMMAND_SIZE" and "b \<noteq> WRITPAGE oc"
  shows "\<exists>s'. exchange oc T (b # bs) s = Some s' \<and>
     statusRegister s' =
       (if b = GETTMNLV oc then statusRegister s OR bit_mask SR_INIT_2
        else if b = EXITTMNL oc then statusRegister s OR bit_mask SR_EXIT_TML
        else if b = DELFLASH oc then statusRegister s OR bit_mask SR_DEL_FLASH
        else if b = INITTINY oc then statusRegister s OR bit_mask SR_INIT_1
        else statusRegister s) \<and>
     pageIX s' = pageIX s \<and>
     (b \<noteq> STPGADDR oc \<longrightarrow> flashPageAddr s' = flashPageAddr s) \<and>
     (b = STPGADDR oc \<and> 2 \<le> length bs \<longrightarrow>
        flashPageAddr s' = push_bit 8 (ucast (bs ! 0)) + ucast (bs ! 1))"
proof -
  let ?r = "s\<lparr>commandLength := of_nat (length (b # bs)),
               command := (\<lambda>i. if i < length (b # bs) then (b # bs) ! i else command s i)\<rparr>"
  have r: "ReceiveEvent (b # bs) s = Some ?r" using assms(2) by (simp add: ReceiveEvent_eq)
  have c: "command ?r 0 = b" by simp
  from RequestEvent_defined [of oc T ?r] assms(3) c obtain s' where
    q: "RequestEvent oc T ?r = Some s'" by auto
  have e: "exchange oc T (b # bs) s = Some s'" using q by (simp add: exchange_def r)
  note d = opcodes_distinctD [OF assms(1)]
  have st: "statusRegister s' =
       (if b = GETTMNLV oc then statusRegister s OR bit_mask SR_INIT_2
        else if b = EXITTMNL oc then statusRegister s OR bit_mask SR_EXIT_TML
        else if b = DELFLASH oc then statusRegister s OR bit_mask SR_DEL_FLASH
        else if b = INITTINY oc then statusRegister s OR bit_mask SR_INIT_1
        else statusRegister s)"
    unfolding RequestEvent_status [OF q] c using assms(3) d by auto
  have ix: "pageIX s' = pageIX s"
    using RequestEvent_pageIX [OF q] assms(3) c by auto
  have f1: "flashPageAddr s' = flashPageAddr s" if "b \<noteq> STPGADDR oc"
    using RequestEvent_flashPageAddr [OF q] that c by auto
  have f2: "flashPageAddr s' = push_bit 8 (ucast (bs ! 0)) + ucast (bs ! 1)"
    if "b = STPGADDR oc \<and> 2 \<le> length bs"
  proof -
    from that have "command ?r 1 = bs ! 0" "command ?r 2 = bs ! 1" by auto
    moreover from RequestEvent_eq [of oc T ?r] q that c d
    have "flashPageAddr s' = push_bit 8 (ucast (command ?r 1)) + ucast (command ?r 2)"
      by auto
    ultimately show ?thesis by simp
  qed
  from e st ix f1 f2 show ?thesis by blast
qed

lemma reachable_countdown:
  "reachable_if G oc T s \<Longrightarrow> Initialized s \<Longrightarrow> unat (i2cDly s) = n \<Longrightarrow>
   reachable_if G oc T (s\<lparr>i2cDly := 0\<rparr>)"
proof (induction n arbitrary: s)
  case 0
  then have "i2cDly s = 0" by (simp add: unat_eq_0)
  then have "s\<lparr>i2cDly := 0\<rparr> = s" by simp
  with 0 show ?case by simp
next
  case (Suc n)
  let ?s1 = "s\<lparr>i2cDly := i2cDly s - 1\<rparr>"
  from Suc.prems have nz: "i2cDly s \<noteq> 0" by auto
  with Suc.prems have "main_pass T s = Some (Running ?s1)"
    by (simp add: main_pass_Initialized)
  with Suc.prems have r: "reachable_if G oc T ?s1" by (blast intro: reachable_if.pass)
  from Suc.prems have i: "Initialized ?s1"
    by (simp add: Initialized_def InitStep1_def InitStep2_def)
  from nz Suc.prems have "unat (i2cDly ?s1) = n" by (simp add: unat_minus_one)
  from Suc.IH [OF r i this] show ?case by simp
qed

lemma reachable_tick:
  assumes "reachable oc T s" and "Initialized s"
  shows "reachable oc T (s\<lparr>i2cDly := 0\<rparr>)"
  using assms unfolding reachable_def by (blast intro: reachable_countdown)

lemma idle_passes_reachable:
  "idle_passes T s s' \<Longrightarrow> reachable_if G oc T s \<Longrightarrow> reachable_if G oc T s'"
  by (induction rule: idle_passes.induct) (auto intro: reachable_if.pass)

lemma run_the: "exchanges oc T fs s = Some s' \<Longrightarrow> the (exchanges oc T fs s) = s'"
  by simp

lemma exchanges_untouched:
  "exchanges oc T fs s = Some s' \<Longrightarrow>
   i2cDly s' = i2cDly s \<and> flash s' = flash s \<and> spm_log s' = spm_log s \<and>
   exitDly s' = exitDly s \<and> ledToggleTimer s' = ledToggleTimer s \<and> led s' = led s"
proof (induction fs arbitrary: s)
  case Nil
  then show ?case by simp
next
  case (Cons bs fs)
  from Cons.prems obtain s1 where e: "exchange oc T bs s = Some s1"
    and r: "exchanges oc T fs s1 = Some s'"
    by (auto split: option.splits)
  from Cons.IH [OF r] exchange_untouched [OF e] show ?case by simp
qed

lemma chunk_lengths: "length good_chunk = 10" "length bad_chunk = 10"
  by (simp_all add: good_chunk_def bad_chunk_def)

lemma good_chunk_received:
  "ReceiveEvent good_chunk s =
     Some (s\<lparr>commandLength := 10,
             command := (\<lambda>i. if i < 10 then good_chunk ! i else command s i)\<rparr>)"
  by (simp add: ReceiveEvent_eq chunk_lengths COMMAND_SIZE_def RXDATASIZE_def)

lemma bad_chunk_received:
  "ReceiveEvent bad_chunk s =
     Some (s\<lparr>commandLength := 10,
             command := (\<lambda>i. if i < 10 then bad_chunk ! i else command s i)\<rparr>)"
  by (simp add: ReceiveEvent_eq chunk_lengths COMMAND_SIZE_def RXDATASIZE_def)

lemma chunk_frame:
  fixes s :: state and bs :: "byte list"
  defines "r \<equiv> s\<lparr>commandLength := 10,
                  command := (\<lambda>i. if i < 10 then bs ! i else command s i)\<rparr>"
  assumes "length bs = 10"
  shows "command r 0 = bs ! 0" "command r (RXDATASIZE + 1) = bs ! 9"
    "chunk_sum r = bs ! 1 + bs ! 2 + bs ! 3 + bs ! 4 + bs ! 5 + bs ! 6 + bs ! 7 + bs ! 8"
    "statusRegister r = statusRegister s" "pageIX r = pageIX s"
    "flashPageAddr r = flashPageAddr s" "tx r = tx s"
  unfolding r_def chunk_sum_def data_indices by (simp_all add: RXDATASIZE_def add.assoc)

lemma exchange_chunk:
  assumes "ReceiveEvent bs s = Some r" and "command r 0 = WRITPAGE oc"
    and "opcodes_distinct oc"
  shows "unat (pageIX s) + RXDATASIZE \<le> PAGE_SIZE \<Longrightarrow>
     \<exists>s'. exchange oc T bs s = Some s' \<and>
       statusRegister s' =
         (if chunk_sum r \<noteq> command r (RXDATASIZE + 1)
          then (statusRegister s AND NOT (bit_mask SR_APP_READY)) OR bit_mask SR_DEL_FLASH
          else statusRegister s) \<and>
       pageIX s' = pageIX s + 8 \<and> flashPageAddr s' = flashPageAddr s \<and>
       tx s' = tx s @ [NOT (WRITPAGE oc), chunk_sum r]"
    and "\<not> unat (pageIX s) + RXDATASIZE \<le> PAGE_SIZE \<Longrightarrow> exchange oc T bs s = None"
proof -
  note f = ReceiveEvent_fields [OF assms(1)]
  note d = opcodes_distinctD [OF assms(3)]
  from RequestEvent_eq [of oc T r] obtain pb where
    q: "RequestEvent oc T r =
        (if unat (pageIX r) + RXDATASIZE \<le> PAGE_SIZE then
           Some (transmit [NOT (command r 0), chunk_sum r]
                   (r\<lparr>pageBuffer := pb, pageIX := pageIX r + 8,
                       statusRegister :=
                         (if chunk_sum r \<noteq> command r (RXDATASIZE + 1)
                          then (statusRegister r AND NOT (bit_mask SR_APP_READY))
                                 OR bit_mask SR_DEL_FLASH
                          else statusRegister r)\<rparr>))
         else None)"
    using assms(2) d by auto
  show "\<exists>s'. exchange oc T bs s = Some s' \<and>
       statusRegister s' =
         (if chunk_sum r \<noteq> command r (RXDATASIZE + 1)
          then (statusRegister s AND NOT (bit_mask SR_APP_READY)) OR bit_mask SR_DEL_FLASH
          else statusRegister s) \<and>
       pageIX s' = pageIX s + 8 \<and> flashPageAddr s' = flashPageAddr s \<and>
       tx s' = tx s @ [NOT (WRITPAGE oc), chunk_sum r]"
    if "unat (pageIX s) + RXDATASIZE \<le> PAGE_SIZE"
    using that by (simp add: exchange_def assms(1,2) q f)
  show "exchange oc T bs s = None" if "\<not> unat (pageIX s) + RXDATASIZE \<le> PAGE_SIZE"
    using that by (simp add: exchange_def assms(1) q f)
qed

lemma exchange_good_chunk:
  assumes "unat (pageIX s) + RXDATASIZE \<le> PAGE_SIZE"
  shows "\<exists>s'. exchange example_opcodes T good_chunk s = Some s' \<and>
       statusRegister s' = statusRegister s \<and> pageIX s' = pageIX s + 8 \<and>
       flashPageAddr s' = flashPageAddr s \<and> tx s' = tx s @ [0x7A, 36]"
proof -
  let ?r = "s\<lparr>commandLength := 10,
               command := (\<lambda>i. if i < 10 then good_chunk ! i else command s i)\<rparr>"
  note l = chunk_lengths(1)
  note c = chunk_frame [where s = s, OF l]
  have w: "command ?r 0 = WRITPAGE example_opcodes"
    unfolding c by (simp add: good_chunk_def example_opcode_values)
  have n: "NOT (WRITPAGE example_opcodes) = 0x7A" by (simp add: example_opcode_values)
  have k: "chunk_sum ?r = 36" "command ?r (RXDATASIZE + 1) = 36"
    unfolding c by (simp_all add: good_chunk_def)
  from exchange_chunk(1) [OF good_chunk_received w example_opcodes_distinct assms, of T]
  show ?thesis unfolding k n by simp
qed


lemma exchange_good_chunk_full:
  assumes "\<not> unat (pageIX s) + RXDATASIZE \<le> PAGE_SIZE"
  shows "exchange example_opcodes T good_chunk s = None"
proof -
  let ?r = "s\<lparr>commandLength := 10,
               command := (\<lambda>i. if i < 10 then good_chunk ! i else command s i)\<rparr>"
  note l = chunk_lengths(1)
  note c = chunk_frame [where s = s, OF l]
  have w: "command ?r 0 = WRITPAGE example_opcodes"
    unfolding c by (simp add: good_chunk_def example_opcode_values)
  from exchange_chunk(2) [OF good_chunk_received w example_opcodes_distinct assms]
  show ?thesis .
qed

lemma unat_chunks:
  assumes "unat (x :: byte) + RXDATASIZE \<le> PAGE_SIZE"
  shows "unat (x + 8) = unat x + RXDATASIZE"
proof -
  from assms have "unat x + unat (8 :: byte) < 256" by (simp add: RXDATASIZE_def PAGE_SIZE_def)
  then show ?thesis using unat_add_lem [of x 8] by (simp add: RXDATASIZE_def)
qed

lemma exchanges_good_chunk:
  assumes "unat (pageIX s) + RXDATASIZE * n \<le> PAGE_SIZE"
  shows "\<exists>s'. exchanges example_opcodes T (replicate n good_chunk) s = Some s' \<and>
       statusRegister s' = statusRegister s \<and> pageIX s' = pageIX s + 8 * of_nat n \<and>
       flashPageAddr s' = flashPageAddr s"
  using assms
proof (induction n arbitrary: s)
  case 0
  show ?case by simp
next
  case (Suc n)
  from Suc.prems have room: "unat (pageIX s) + RXDATASIZE \<le> PAGE_SIZE" by simp
  from exchange_good_chunk [OF room, of T] obtain s1 where
    e: "exchange example_opcodes T good_chunk s = Some s1" and
    f: "statusRegister s1 = statusRegister s" "pageIX s1 = pageIX s + 8"
      "flashPageAddr s1 = flashPageAddr s" by blast
  have "unat (pageIX s1) + RXDATASIZE * n \<le> PAGE_SIZE"
    using Suc.prems unat_chunks [OF room] f(2) by simp
  from Suc.IH [OF this] obtain s' where
    "exchanges example_opcodes T (replicate n good_chunk) s1 = Some s'"
    "statusRegister s' = statusRegister s1" "pageIX s' = pageIX s1 + 8 * of_nat n"
    "flashPageAddr s' = flashPageAddr s1" by blast
  with e f show ?case by (simp add: algebra_simps)
qed

lemma init_state_fields:
  "statusRegister (init_state fl) = 8" "pageIX (init_state fl) = 0"
  "flashPageAddr (init_state fl) = 0" "i2cDly (init_state fl) = I2CDLYTIME"
  "flash (init_state fl) = fl" "exitDly (init_state fl) = 80"
  "ledToggleTimer (init_state fl) = 0" "tx (init_state fl) = []"
  by (simp_all add: init_state_def bit_mask_simps CYCLESTOEXIT_def)

lemma example_frame:
  assumes "length (b # bs) \<le> COMMAND_SIZE" and "b \<noteq> 0x85"
  shows "\<exists>s'. exchange example_opcodes T (b # bs) s = Some s' \<and>
     statusRegister s' =
       (if b = 0x82 then statusRegister s OR 2
        else if b = 0x86 then statusRegister s OR 16
        else if b = 0x83 then statusRegister s OR 4
        else if b = 0x81 then statusRegister s OR 1
        else statusRegister s) \<and>
     pageIX s' = pageIX s \<and>
     (b \<noteq> 0x84 \<longrightarrow> flashPageAddr s' = flashPageAddr s) \<and>
     (b = 0x84 \<and> 2 \<le> length bs \<longrightarrow>
        flashPageAddr s' = push_bit 8 (ucast (bs ! 0)) + ucast (bs ! 1))"
  using exchange_frame [OF example_opcodes_distinct assms(1), of T s] assms(2)
  unfolding example_opcode_values bit_mask_simps by simp

lemma one_flag_state_run:
  "exchanges example_opcodes example_start [[0x81]] (init_state example_flash)
     = Some one_flag_state"
  "statusRegister one_flag_state = 0x09" "pageIX one_flag_state = 0"
  "flashPageAddr one_flag_state = 0"
proof -
  from example_frame [of "0x81" "[]" example_start "init_state example_flash"]
  obtain s1 where e: "exchange example_opcodes example_start [0x81] (init_state example_flash)
      = Some s1"
    and f: "statusRegister s1 = 9" "pageIX s1 = 0" "flashPageAddr s1 = 0"
    by (auto simp add: COMMAND_SIZE_def RXDATASIZE_def init_state_fields)
  from e have r: "exchanges example_opcodes example_start [[0x81]] (init_state example_flash)
      = Some s1" by simp
  then have "one_flag_state = s1" by (simp add: one_flag_state_def)
  with r f show
    "exchanges example_opcodes example_start [[0x81]] (init_state example_flash)
       = Some one_flag_state"
    "statusRegister one_flag_state = 0x09" "pageIX one_flag_state = 0"
    "flashPageAddr one_flag_state = 0"
    by simp_all
qed

lemma handshake_state_run:
  "exchanges example_opcodes example_start [[0x82]] one_flag_state = Some handshake_state"
  "exchanges example_opcodes example_start [[0x81], [0x82]] (init_state example_flash)
     = Some handshake_state"
  "statusRegister handshake_state = 0x0B" "pageIX handshake_state = 0"
  "flashPageAddr handshake_state = 0"
proof -
  from example_frame [of "0x82" "[]" example_start one_flag_state]
  obtain s2 where e: "exchange example_opcodes example_start [0x82] one_flag_state = Some s2"
    and f: "statusRegister s2 = 0x0B" "pageIX s2 = 0" "flashPageAddr s2 = 0"
    by (auto simp add: COMMAND_SIZE_def RXDATASIZE_def one_flag_state_run)
  from one_flag_state_run(1) have
    o: "exchange example_opcodes example_start [0x81] (init_state example_flash)
      = Some one_flag_state"
    by (simp split: option.splits)
  from e o have r: "exchanges example_opcodes example_start [[0x81], [0x82]]
      (init_state example_flash) = Some s2" by simp
  then have "handshake_state = s2" by (simp add: handshake_state_def)
  with r e f show
    "exchanges example_opcodes example_start [[0x82]] one_flag_state = Some handshake_state"
    "exchanges example_opcodes example_start [[0x81], [0x82]] (init_state example_flash)
       = Some handshake_state"
    "statusRegister handshake_state = 0x0B" "pageIX handshake_state = 0"
    "flashPageAddr handshake_state = 0"
    by simp_all
qed

lemma reverse_handshake_state_run:
  "exchanges example_opcodes example_start [[0x82], [0x81]] (init_state example_flash)
     = Some reverse_handshake_state"
  "statusRegister reverse_handshake_state = 0x0B"
proof -
  from example_frame [of "0x82" "[]" example_start "init_state example_flash"]
  obtain s1 where e1: "exchange example_opcodes example_start [0x82] (init_state example_flash)
      = Some s1"
    and f1: "statusRegister s1 = 0x0A"
    by (auto simp add: COMMAND_SIZE_def RXDATASIZE_def init_state_fields)
  from example_frame [of "0x81" "[]" example_start s1]
  obtain s2 where e2: "exchange example_opcodes example_start [0x81] s1 = Some s2"
    and f2: "statusRegister s2 = 0x0B"
    by (auto simp add: COMMAND_SIZE_def RXDATASIZE_def f1)
  from e1 e2 have r: "exchanges example_opcodes example_start [[0x82], [0x81]]
      (init_state example_flash) = Some s2" by simp
  then have "reverse_handshake_state = s2" by (simp add: reverse_handshake_state_def)
  with r f2 show
    "exchanges example_opcodes example_start [[0x82], [0x81]] (init_state example_flash)
       = Some reverse_handshake_state"
    "statusRegister reverse_handshake_state = 0x0B"
    by simp_all
qed

lemma reachable_run:
  assumes "exchanges oc T fs s = Some s'" and "reachable oc T s"
  shows "reachable oc T s'"
  using assms unfolding reachable_def by (rule reachable_exchanges) simp

lemma one_flag_state_fields:
  "statusRegister one_flag_state = 0x09" "exitDly one_flag_state = 80"
  "ledToggleTimer one_flag_state = 0"
  using exchanges_untouched [OF one_flag_state_run(1)]
  by (simp_all add: one_flag_state_run init_state_fields)

lemma one_flag_state_reachable: "reachable example_opcodes example_start one_flag_state"
  by (rule reachable_run [OF one_flag_state_run(1)])
    (simp add: reachable_def reachable_if.start)

lemma handshake_state_fields:
  "statusRegister handshake_state = 0x0B" "i2cDly handshake_state = I2CDLYTIME"
  "flash handshake_state = example_flash" "pageIX handshake_state = 0"
  "flashPageAddr handshake_state = 0"
  using exchanges_untouched [OF handshake_state_run(2)]
  by (simp_all add: handshake_state_run init_state_fields)

lemma handshake_state_reachable: "reachable example_opcodes example_start handshake_state"
  by (rule reachable_run [OF handshake_state_run(2)])
    (simp add: reachable_def reachable_if.start)





lemma Initialized_status:
  "Initialized s \<longleftrightarrow> bit (statusRegister s) 0 \<and> bit (statusRegister s) 1"
  by (simp add: Initialized_def flags_of_status)


lemma unaligned_address_state_run:
  "exchanges example_opcodes example_start [[0x84, 0x00, 0x01]] handshake_state
     = Some unaligned_address_state"
  "flashPageAddr unaligned_address_state = 1" "statusRegister unaligned_address_state = 0x0B"
  "pageIX unaligned_address_state = 0"
proof -
  from example_frame [of "0x84" "[0x00, 0x01]" example_start handshake_state]
  obtain s2 where
    e2: "exchange example_opcodes example_start [0x84, 0x00, 0x01] handshake_state = Some s2"
    and f2: "statusRegister s2 = 0x0B" "pageIX s2 = 0" "flashPageAddr s2 = 1"
    by (auto simp add: COMMAND_SIZE_def RXDATASIZE_def handshake_state_fields)
  from e2 have r: "exchanges example_opcodes example_start [[0x84, 0x00, 0x01]]
      handshake_state = Some s2" by simp
  then have "unaligned_address_state = s2" by (simp add: unaligned_address_state_def)
  with r f2 show
    "exchanges example_opcodes example_start [[0x84, 0x00, 0x01]] handshake_state
       = Some unaligned_address_state"
    "flashPageAddr unaligned_address_state = 1" "statusRegister unaligned_address_state = 0x0B"
    "pageIX unaligned_address_state = 0"
    by simp_all
qed

lemma unaligned_address_state_fields:
  "flashPageAddr unaligned_address_state = 1" "statusRegister unaligned_address_state = 0x0B"
  "pageIX unaligned_address_state = 0" "i2cDly unaligned_address_state = I2CDLYTIME"
  "flash unaligned_address_state = example_flash"
  using exchanges_untouched [OF unaligned_address_state_run(1)]
  by (simp_all add: unaligned_address_state_run handshake_state_fields)

lemma unaligned_address_state_reachable:
  "reachable example_opcodes example_start unaligned_address_state"
  by (rule reachable_run [OF unaligned_address_state_run(1) handshake_state_reachable])

lemma eight_chunks:
  assumes "pageIX s = 0"
  shows "\<exists>s'. exchanges example_opcodes example_start (replicate 8 good_chunk) s = Some s' \<and>
     statusRegister s' = statusRegister s \<and> pageIX s' = 64 \<and>
     flashPageAddr s' = flashPageAddr s \<and> i2cDly s' = i2cDly s \<and> flash s' = flash s"
proof -
  have "unat (pageIX s) + RXDATASIZE * 8 \<le> PAGE_SIZE"
    by (simp add: assms RXDATASIZE_def PAGE_SIZE_def)
  from exchanges_good_chunk [OF this, of example_start] obtain s' where
    r: "exchanges example_opcodes example_start (replicate 8 good_chunk) s = Some s'"
    and f: "statusRegister s' = statusRegister s" "pageIX s' = pageIX s + 8 * of_nat 8"
      "flashPageAddr s' = flashPageAddr s" by blast
  from exchanges_untouched [OF r] r f show ?thesis by (simp add: assms)
qed

lemma unaligned_commit_state_run:
  "\<exists>s'. exchanges example_opcodes example_start (replicate 8 good_chunk)
            unaligned_address_state = Some s' \<and>
     unaligned_commit_state = s'\<lparr>i2cDly := 0\<rparr> \<and> statusRegister s' = 0x0B \<and>
     pageIX s' = 64 \<and> flashPageAddr s' = 1"
proof -
  from eight_chunks [OF unaligned_address_state_fields(3)] obtain s' where
    r: "exchanges example_opcodes example_start (replicate 8 good_chunk)
          unaligned_address_state = Some s'"
    and f: "statusRegister s' = statusRegister unaligned_address_state" "pageIX s' = 64"
      "flashPageAddr s' = flashPageAddr unaligned_address_state" by blast
  have "unaligned_commit_state = s'\<lparr>i2cDly := 0\<rparr>"
    unfolding unaligned_commit_state_def r by simp
  with r f show ?thesis by (simp add: unaligned_address_state_fields)
qed

lemma unaligned_commit_state_fields:
  "statusRegister unaligned_commit_state = 0x0B" "pageIX unaligned_commit_state = 64"
  "flashPageAddr unaligned_commit_state = 1" "i2cDly unaligned_commit_state = 0"
proof -
  from unaligned_commit_state_run obtain s' where
    e: "unaligned_commit_state = s'\<lparr>i2cDly := 0\<rparr>"
    and f: "statusRegister s' = 0x0B" "pageIX s' = 64" "flashPageAddr s' = 1" by blast
  show "statusRegister unaligned_commit_state = 0x0B" "pageIX unaligned_commit_state = 64"
    "flashPageAddr unaligned_commit_state = 1" "i2cDly unaligned_commit_state = 0"
    unfolding e by (simp_all add: f)
qed

lemma unaligned_commit_state_reachable:
  "reachable example_opcodes example_start unaligned_commit_state"
proof -
  from unaligned_commit_state_run obtain a where
    ra: "exchanges example_opcodes example_start (replicate 8 good_chunk)
           unaligned_address_state = Some a"
    and ea: "unaligned_commit_state = a\<lparr>i2cDly := 0\<rparr>" and sa: "statusRegister a = 0x0B"
    by blast
  have ia: "Initialized a" by (simp add: Initialized_status sa)
  show ?thesis unfolding ea
    by (rule reachable_tick [OF reachable_run [OF ra unaligned_address_state_reachable] ia])
qed

lemma full_page_state_run:
  "\<exists>s'. exchanges example_opcodes example_start (replicate 8 good_chunk) handshake_state
            = Some s' \<and>
     full_page_state = s'\<lparr>i2cDly := 0\<rparr> \<and> statusRegister s' = 0x0B \<and>
     pageIX s' = 64 \<and> flashPageAddr s' = 0"
proof -
  from eight_chunks [OF handshake_state_fields(4)] obtain s' where
    r: "exchanges example_opcodes example_start (replicate 8 good_chunk) handshake_state
          = Some s'"
    and f: "statusRegister s' = statusRegister handshake_state" "pageIX s' = 64"
      "flashPageAddr s' = flashPageAddr handshake_state" by blast
  have "full_page_state = s'\<lparr>i2cDly := 0\<rparr>"
    unfolding full_page_state_def r by simp
  with r f show ?thesis by (simp add: handshake_state_fields)
qed

lemma full_page_state_fields:
  "statusRegister full_page_state = 0x0B" "pageIX full_page_state = 64"
  "flashPageAddr full_page_state = 0" "i2cDly full_page_state = 0"
proof -
  from full_page_state_run obtain s' where e: "full_page_state = s'\<lparr>i2cDly := 0\<rparr>"
    and f: "statusRegister s' = 0x0B" "pageIX s' = 64" "flashPageAddr s' = 0" by blast
  show "statusRegister full_page_state = 0x0B" "pageIX full_page_state = 64"
    "flashPageAddr full_page_state = 0" "i2cDly full_page_state = 0"
    unfolding e by (simp_all add: f)
qed

lemma full_page_state_reachable:
  "reachable example_opcodes example_start full_page_state"
proof -
  from full_page_state_run obtain a where
    ra: "exchanges example_opcodes example_start (replicate 8 good_chunk) handshake_state
           = Some a"
    and ea: "full_page_state = a\<lparr>i2cDly := 0\<rparr>" and sa: "statusRegister a = 0x0B"
    by blast
  have ia: "Initialized a" by (simp add: Initialized_status sa)
  show ?thesis unfolding ea
    by (rule reachable_tick [OF reachable_run [OF ra handshake_state_reachable] ia])
qed

lemma eight_chunks_state_run:
  "exchanges example_opcodes example_start (replicate 8 good_chunk) (init_state example_flash)
     = Some eight_chunks_state"
  "pageIX eight_chunks_state = 64" "statusRegister eight_chunks_state = 8"
proof -
  from eight_chunks [OF init_state_fields(2), of example_flash] obtain s' where
    r: "exchanges example_opcodes example_start (replicate 8 good_chunk)
          (init_state example_flash) = Some s'"
    and f: "statusRegister s' = statusRegister (init_state example_flash)" "pageIX s' = 64"
    by blast
  have "eight_chunks_state = s'" unfolding eight_chunks_state_def r by simp
  with r f show "exchanges example_opcodes example_start (replicate 8 good_chunk)
      (init_state example_flash) = Some eight_chunks_state"
    "pageIX eight_chunks_state = 64" "statusRegister eight_chunks_state = 8"
    by (simp_all add: init_state_fields)
qed

lemma eight_chunks_state_reachable:
  "reachable example_opcodes example_start eight_chunks_state"
  by (rule reachable_run [OF eight_chunks_state_run(1)])
    (simp add: reachable_def reachable_if.start)

lemma ninth_chunk:
  "exchange example_opcodes example_start good_chunk eight_chunks_state = None"
  by (rule exchange_good_chunk_full)
    (simp add: eight_chunks_state_run RXDATASIZE_def PAGE_SIZE_def)

lemma one_flag_state_expires: "idle_passes T one_flag_state one_flag_expired_state"
proof -
  have i: "\<not> Initialized one_flag_state" by (simp add: Initialized_status one_flag_state_fields)
  have "unat (exitDly one_flag_state) = 80" by (simp add: one_flag_state_fields)
  from idle_countdown [OF i this, of T]
  show ?thesis by (simp add: one_flag_expired_state_def)
qed



lemma unaligned_commit_state_due: "commit_due unaligned_commit_state"
  unfolding commit_due_def tick_due_def Initialized_def flags_of_status
    unaligned_commit_state_fields
  by (simp add: PAGE_SIZE_def)

lemma full_page_state_due: "commit_due full_page_state"
  unfolding commit_due_def tick_due_def Initialized_def flags_of_status full_page_state_fields
  by (simp add: PAGE_SIZE_def)

lemma handshake_state_pass:
  "main_pass T handshake_state = Some (Running (handshake_state\<lparr>i2cDly := I2CDLYTIME - 1\<rparr>))"
proof -
  have "Initialized handshake_state"
    unfolding Initialized_def flags_of_status handshake_state_fields by simp
  then show ?thesis
    by (simp add: main_pass_Initialized handshake_state_fields I2CDLYTIME_def)
qed

lemma one_flag_state_flags:
  "InitStep1 one_flag_state" "\<not> InitStep2 one_flag_state" "\<not> Initialized one_flag_state"
  unfolding Initialized_def flags_of_status one_flag_state_fields by simp_all

lemma one_flag_expired_state_flags:
  "InitStep1 one_flag_expired_state" "\<not> InitStep2 one_flag_expired_state"
  "\<not> Initialized one_flag_expired_state"
  using one_flag_state_flags
  by (simp_all add: one_flag_expired_state_def Initialized_def InitStep1_def InitStep2_def)

lemma one_flag_expired_state_pass:
  "main_pass T one_flag_expired_state =
     Some (Handoff (one_flag_expired_state\<lparr>ledToggleTimer := 0,
       led := \<not> led one_flag_expired_state, exitDly := 0xFF\<rparr>))"
  by (simp add: main_pass_Uninitialized [OF one_flag_expired_state_flags(3)])
    (simp add: one_flag_expired_state_def)

lemma one_flag_state_pass:
  "main_pass T one_flag_state = Some (Running (one_flag_state\<lparr>ledToggleTimer := 1\<rparr>))"
  by (simp add: main_pass_Uninitialized [OF one_flag_state_flags(3)] one_flag_state_fields)

lemma paced_writes_defined:
  assumes "opcodes_distinct oc"
  shows "(\<exists>s'. RequestEvent oc T s = Some s') \<longleftrightarrow> paced_writes oc s"
  unfolding RequestEvent_defined paced_writes_def using opcodes_distinctD [OF assms] by auto

lemma RequestEvent_WRITPAGE:
  assumes "opcodes_distinct oc" and "command s 0 = WRITPAGE oc"
  shows "unat (pageIX s) + RXDATASIZE \<le> PAGE_SIZE \<Longrightarrow>
     \<exists>s'. RequestEvent oc T s = Some s' \<and>
       tx s' = tx s @ [NOT (WRITPAGE oc), chunk_sum s] \<and>
       statusRegister s' =
         (if chunk_sum s \<noteq> command s (RXDATASIZE + 1)
          then (statusRegister s AND NOT (bit_mask SR_APP_READY)) OR bit_mask SR_DEL_FLASH
          else statusRegister s)"
    and "\<not> unat (pageIX s) + RXDATASIZE \<le> PAGE_SIZE \<Longrightarrow> RequestEvent oc T s = None"
proof -
  note d = opcodes_distinctD [OF assms(1)]
  from RequestEvent_eq [of oc T s] obtain pb where
    q: "RequestEvent oc T s =
        (if unat (pageIX s) + RXDATASIZE \<le> PAGE_SIZE then
           Some (transmit [NOT (command s 0), chunk_sum s]
                   (s\<lparr>pageBuffer := pb, pageIX := pageIX s + 8,
                       statusRegister :=
                         (if chunk_sum s \<noteq> command s (RXDATASIZE + 1)
                          then (statusRegister s AND NOT (bit_mask SR_APP_READY))
                                 OR bit_mask SR_DEL_FLASH
                          else statusRegister s)\<rparr>))
         else None)"
    using assms(2) d by auto
  show "\<exists>s'. RequestEvent oc T s = Some s' \<and>
       tx s' = tx s @ [NOT (WRITPAGE oc), chunk_sum s] \<and>
       statusRegister s' =
         (if chunk_sum s \<noteq> command s (RXDATASIZE + 1)
          then (statusRegister s AND NOT (bit_mask SR_APP_READY)) OR bit_mask SR_DEL_FLASH
          else statusRegister s)"
    if "unat (pageIX s) + RXDATASIZE \<le> PAGE_SIZE"
    using that by (simp add: q assms(2))
  show "RequestEvent oc T s = None" if "\<not> unat (pageIX s) + RXDATASIZE \<le> PAGE_SIZE"
    using that by (simp add: q)
qed

lemma bad_chunk_state_fields:
  "command bad_chunk_state 0 = 0x85" "chunk_sum bad_chunk_state = 36"
  "command bad_chunk_state (RXDATASIZE + 1) = 0" "tx bad_chunk_state = []"
  "pageIX bad_chunk_state = 0"
  unfolding bad_chunk_state_def bad_chunk_received option.sel
    chunk_frame [where s = "init_state (\<lambda>_. 0xFF)", OF chunk_lengths(2)]
  by (simp_all add: bad_chunk_def init_state_fields)

lemma ninth_chunk_received:
  "\<exists>r. ReceiveEvent good_chunk eight_chunks_state = Some r \<and>
     command r 0 = WRITPAGE example_opcodes \<and> chunk_sum r = command r (RXDATASIZE + 1) \<and>
     pageIX r = 64 \<and> reachable example_opcodes example_start r"
proof -
  let ?r = "eight_chunks_state\<lparr>commandLength := 10,
      command := (\<lambda>i. if i < 10 then good_chunk ! i else command eight_chunks_state i)\<rparr>"
  note c = chunk_frame [where s = eight_chunks_state, OF chunk_lengths(1)]
  have r: "ReceiveEvent good_chunk eight_chunks_state = Some ?r" by (rule good_chunk_received)
  have "reachable example_opcodes example_start ?r"
    using eight_chunks_state_reachable r unfolding reachable_def
    by (rule reachable_if.receive)
  moreover have "command ?r 0 = WRITPAGE example_opcodes"
    "chunk_sum ?r = command ?r (RXDATASIZE + 1)" "pageIX ?r = 64"
    unfolding c by (simp_all add: good_chunk_def example_opcode_values eight_chunks_state_run)
  ultimately show ?thesis using r by blast
qed

lemma first_chunk_received:
  "\<exists>r. ReceiveEvent good_chunk handshake_state = Some r \<and>
     command r 0 = WRITPAGE example_opcodes \<and> pageIX r = 0 \<and>
     reachable example_opcodes example_start r"
proof -
  let ?r = "handshake_state\<lparr>commandLength := 10,
      command := (\<lambda>i. if i < 10 then good_chunk ! i else command handshake_state i)\<rparr>"
  note c = chunk_frame [where s = handshake_state, OF chunk_lengths(1)]
  have r: "ReceiveEvent good_chunk handshake_state = Some ?r" by (rule good_chunk_received)
  have "reachable example_opcodes example_start ?r"
    using handshake_state_reachable r unfolding reachable_def
    by (rule reachable_if.receive)
  moreover have "command ?r 0 = WRITPAGE example_opcodes" "pageIX ?r = 0"
    unfolding c by (simp_all add: good_chunk_def example_opcode_values handshake_state_fields)
  ultimately show ?thesis using r by blast
qed

lemma RequestEvent_WRITPAGE_pageIX:
  assumes "opcodes_distinct oc" and "command s 0 = WRITPAGE oc"
    and "RequestEvent oc T s = Some s'"
  shows "pageIX s' = pageIX s + 8"
proof (cases "unat (pageIX s) + RXDATASIZE \<le> PAGE_SIZE")
  case True
  note d = opcodes_distinctD [OF assms(1)]
  from RequestEvent_eq [of oc T s] assms(2) d True obtain pb where
    "RequestEvent oc T s =
           Some (transmit [NOT (command s 0), chunk_sum s]
                   (s\<lparr>pageBuffer := pb, pageIX := pageIX s + 8,
                       statusRegister :=
                         (if chunk_sum s \<noteq> command s (RXDATASIZE + 1)
                          then (statusRegister s AND NOT (bit_mask SR_APP_READY))
                                 OR bit_mask SR_DEL_FLASH
                          else statusRegister s)\<rparr>))"
    by auto
  with assms(3) show ?thesis by auto
next
  case False
  from RequestEvent_WRITPAGE(2) [OF assms(1,2) False, of T] assms(3) show ?thesis by simp
qed

lemma RequestEvent_STPGADDR:
  assumes "opcodes_distinct oc" and "command s 0 = STPGADDR oc"
  shows "\<exists>s'. RequestEvent oc T s = Some s' \<and>
     flashPageAddr s' = push_bit 8 (ucast (command s 1)) + ucast (command s 2) \<and>
     statusRegister s' = statusRegister s \<and> pageIX s' = pageIX s \<and>
     tx s' = tx s @ [NOT (STPGADDR oc), command s 1 + command s 2]"
  using RequestEvent_eq [of oc T s] assms(2) opcodes_distinctD [OF assms(1)] by auto

lemma reachable_aligned:
  "reachable_if (aligned_requests oc) oc T s \<Longrightarrow> page_aligned (flashPageAddr s)"
proof (induction rule: reachable_if.induct)
  case (start fl)
  show ?case by (simp add: init_state_def page_aligned_def)
next
  case (receive s bs s')
  from ReceiveEvent_fields(3) [OF receive.hyps(2)] receive.IH show ?case by simp
next
  case (request s s')
  from RequestEvent_flashPageAddr [OF request.hyps(3)] request.hyps(2) request.IH
  show ?case by (auto simp add: aligned_requests_def STPGADDR_aligned)
next
  case (pass s s')
  from main_pass_flashPageAddr [OF pass.hyps(2)] pass.IH show ?case
    by (auto simp add: page_aligned_add_page page_aligned_PAGE_SIZE)
qed

lemma handshake_state_aligned:
  "reachable_if (aligned_requests example_opcodes) example_opcodes example_start handshake_state"
proof (rule reachable_exchanges [OF handshake_state_run(2) reachable_if.start])
  fix bs s0 s1 s2
  assume "bs \<in> set [[0x81], [0x82 :: byte]]" and r: "ReceiveEvent bs s0 = Some s1"
  then have "bs = [0x81] \<or> bs = [0x82]" by simp
  with ReceiveEvent_fields(14) [OF r, of 0] have "command s1 0 \<noteq> 0x84" by auto
  then show "aligned_requests example_opcodes s1"
    by (simp add: aligned_requests_def example_opcode_values)
qed

lemma aligned_address_received:
  "\<exists>r. ReceiveEvent [0x84, 0x1A, 0x40] handshake_state = Some r \<and>
     command r 0 = STPGADDR example_opcodes \<and> command r 1 = 0x1A \<and> command r 2 = 0x40 \<and>
     reachable_if (aligned_requests example_opcodes) example_opcodes example_start r"
proof -
  obtain r where r: "ReceiveEvent [0x84, 0x1A, 0x40] handshake_state = Some r"
    by (simp add: ReceiveEvent_eq COMMAND_SIZE_def RXDATASIZE_def)
  from ReceiveEvent_fields(14) [OF r, of 0] ReceiveEvent_fields(14) [OF r, of 1]
    ReceiveEvent_fields(14) [OF r, of 2]
  have c: "command r 0 = STPGADDR example_opcodes" "command r 1 = 0x1A" "command r 2 = 0x40"
    by (simp_all add: example_opcode_values)
  from handshake_state_aligned r
  have "reachable_if (aligned_requests example_opcodes) example_opcodes example_start r"
    by (rule reachable_if.receive)
  with r c show ?thesis by blast
qed



lemma RequestEvent_init_flags:
  assumes "opcodes_distinct oc" and "RequestEvent oc T s = Some s'"
  shows "InitStep1 s' \<longleftrightarrow> InitStep1 s \<or> command s 0 = INITTINY oc"
    and "InitStep2 s' \<longleftrightarrow> InitStep2 s \<or> command s 0 = GETTMNLV oc"
proof -
  note d = opcodes_distinctD [OF assms(1)]
  note st = RequestEvent_status [OF assms(2)]
  show "InitStep1 s' \<longleftrightarrow> InitStep1 s \<or> command s 0 = INITTINY oc"
    unfolding InitStep1_def st using d
    by (auto simp add: bit_set_flag bit_clear_set_flag bit_clear_flag SR_INIT_1_def
        SR_INIT_2_def SR_DEL_FLASH_def SR_APP_READY_def SR_EXIT_TML_def)
  show "InitStep2 s' \<longleftrightarrow> InitStep2 s \<or> command s 0 = GETTMNLV oc"
    unfolding InitStep2_def st using d
    by (auto simp add: bit_set_flag bit_clear_set_flag bit_clear_flag SR_INIT_1_def
        SR_INIT_2_def SR_DEL_FLASH_def SR_APP_READY_def SR_EXIT_TML_def)
qed

lemma ReceiveEvent_init_flags:
  assumes "ReceiveEvent bs s = Some s'"
  shows "InitStep1 s' \<longleftrightarrow> InitStep1 s" "InitStep2 s' \<longleftrightarrow> InitStep2 s"
  using ReceiveEvent_fields(1) [OF assms] by (simp_all add: InitStep1_def InitStep2_def)

lemma exchange_init_flags:
  assumes "opcodes_distinct oc" and "b \<noteq> WRITPAGE oc"
  shows "\<exists>s'. exchange oc T [b] s = Some s' \<and>
     (InitStep1 s' \<longleftrightarrow> InitStep1 s \<or> b = INITTINY oc) \<and>
     (InitStep2 s' \<longleftrightarrow> InitStep2 s \<or> b = GETTMNLV oc)"
proof -
  have l: "length [b] \<le> COMMAND_SIZE" by (simp add: COMMAND_SIZE_def)
  from exchange_frame [OF assms(1) l assms(2), of T s] obtain s' where
    e: "exchange oc T [b] s = Some s'" by blast
  from e obtain s1 where r: "ReceiveEvent [b] s = Some s1"
    and q: "RequestEvent oc T s1 = Some s'" by (rule exchange_Some)
  from ReceiveEvent_fields(14) [OF r, of 0] have c: "command s1 0 = b" by simp
  from RequestEvent_init_flags [OF assms(1) q] ReceiveEvent_init_flags [OF r] c e
  show ?thesis by simp
qed

lemma handshake_either_order:
  assumes "opcodes_distinct oc"
  shows "\<exists>s1 s2. exchange oc T [INITTINY oc] s = Some s1 \<and>
           exchange oc T [GETTMNLV oc] s1 = Some s2 \<and> Initialized s2"
    and "\<exists>s1 s2. exchange oc T [GETTMNLV oc] s = Some s1 \<and>
           exchange oc T [INITTINY oc] s1 = Some s2 \<and> Initialized s2"
proof -
  note d = opcodes_distinctD [OF assms]
  from d have n: "INITTINY oc \<noteq> WRITPAGE oc" "GETTMNLV oc \<noteq> WRITPAGE oc" by auto
  from exchange_init_flags [OF assms n(1), of T s] obtain s1 where
    e1: "exchange oc T [INITTINY oc] s = Some s1" and f1: "InitStep1 s1" by auto
  from exchange_init_flags [OF assms n(2), of T s1] obtain s2 where
    e2: "exchange oc T [GETTMNLV oc] s1 = Some s2" and f2: "InitStep1 s2" "InitStep2 s2"
    using f1 by auto
  from e1 e2 f2 show "\<exists>s1 s2. exchange oc T [INITTINY oc] s = Some s1 \<and>
           exchange oc T [GETTMNLV oc] s1 = Some s2 \<and> Initialized s2"
    by (auto simp add: Initialized_def)
  from exchange_init_flags [OF assms n(2), of T s] obtain t1 where
    g1: "exchange oc T [GETTMNLV oc] s = Some t1" and h1: "InitStep2 t1" by auto
  from exchange_init_flags [OF assms n(1), of T t1] obtain t2 where
    g2: "exchange oc T [INITTINY oc] t1 = Some t2" and h2: "InitStep1 t2" "InitStep2 t2"
    using h1 by auto
  from g1 g2 h2 show "\<exists>s1 s2. exchange oc T [GETTMNLV oc] s = Some s1 \<and>
           exchange oc T [INITTINY oc] s1 = Some s2 \<and> Initialized s2"
    by (auto simp add: Initialized_def)
qed

lemma one_command_alone:
  assumes "opcodes_distinct oc"
  shows "\<exists>s1. exchange oc T [INITTINY oc] (init_state fl) = Some s1 \<and> \<not> Initialized s1"
    and "\<exists>s1. exchange oc T [GETTMNLV oc] (init_state fl) = Some s1 \<and> \<not> Initialized s1"
proof -
  note d = opcodes_distinctD [OF assms]
  from d have n: "INITTINY oc \<noteq> WRITPAGE oc" "GETTMNLV oc \<noteq> WRITPAGE oc" by auto
  from exchange_init_flags [OF assms n(1), of T "init_state fl"] d(5)
  show "\<exists>s1. exchange oc T [INITTINY oc] (init_state fl) = Some s1 \<and> \<not> Initialized s1"
    by (auto simp add: Initialized_def init_state_flags)
  from exchange_init_flags [OF assms n(2), of T "init_state fl"] d(5)
  show "\<exists>s1. exchange oc T [GETTMNLV oc] (init_state fl) = Some s1 \<and> \<not> Initialized s1"
    by (auto simp add: Initialized_def init_state_flags)
qed

section \<open>The claims\<close>

text \<open>
  C4.  Round trip of the trampoline calculation.  For a bootloader start address that is
  a multiple of the page size and any two reset-vector bytes, the two trampoline bytes
  form a relative-jump instruction, and decoding it at the last instruction slot of the
  trampoline page gives the same target as decoding the original reset-vector bytes
  at address 0.
\<close>

theorem trampoline_round_trip:
  assumes "page_aligned T"
  shows "rjmp_target (ucast (RunApplication_entry T))
           (instruction (tplJumpLowByte (CalculateTrampoline T lo hi s))
                        (tplJumpHighByte (CalculateTrampoline T lo hi s)))
         = rjmp_target 0 (instruction lo hi)
       \<and> is_rjmp (instruction (tplJumpLowByte (CalculateTrampoline T lo hi s))
                        (tplJumpHighByte (CalculateTrampoline T lo hi s)))"
  unfolding CalculateTrampoline_word rjmp_target_def tpl_pc
    jumpOffset_pc [OF assms] entry_pc [OF assms]
  using tpl_rjmp by simp


theorem trampoline_round_trip_witness:
  "page_aligned example_start \<and>
   rjmp_target (ucast (RunApplication_entry example_start))
     (instruction (tplJumpLowByte (CalculateTrampoline example_start 0x0E 0xC0 (init_state (\<lambda>_. 0xFF))))
                  (tplJumpHighByte (CalculateTrampoline example_start 0x0E 0xC0 (init_state (\<lambda>_. 0xFF)))))
     = rjmp_target 0 (instruction 0x0E 0xC0)"
proof -
  have a: "page_aligned example_start"
    by (simp add: page_aligned_def example_start_def)
  from a trampoline_round_trip [OF a, of "0x0E" "0xC0" "init_state (\<lambda>_. 0xFF)"]
  show ?thesis by simp
qed



text \<open>
  C10 (amended).  The page writes \<^verbatim>\<open>FlashPage\<close> issues are: none when the masked
  argument lies at or above the bootloader; otherwise one at the masked argument, and,
  when that is page 0 and \<^verbatim>\<open>flashPageAddr\<close> lies below the trampoline page, a second one
  at the trampoline page \<^verbatim>\<open>TIMONEL_START - PAGE_SIZE\<close>.  Both addresses are page
  boundaries, whatever the low bits of the argument, and no page erase is issued.
\<close>

theorem FlashPage_writes_page_aligned:
  assumes "page_aligned T"
  shows "page_ops (spm_log (FlashPage T a s))
           = page_ops (spm_log s) @
             (if T \<le> page_base a then []
              else if page_base a = 0 \<and> flashPageAddr s < T - of_nat PAGE_SIZE
                   then [PageWrite 0, PageWrite (T - of_nat PAGE_SIZE)]
              else [PageWrite (page_base a)])
         \<and> page_aligned (page_base a) \<and> page_aligned (T - of_nat PAGE_SIZE)"
  using assms
  by (simp add: FlashPage_log page_base_is_aligned page_aligned_diff page_aligned_PAGE_SIZE)

theorem FlashPage_writes_page_aligned_witness:
  "page_aligned example_start \<and>
   page_ops (spm_log (FlashPage example_start 0x45 (init_state (\<lambda>_. 0xFF)))) = [PageWrite 0x40] \<and>
   page_aligned (page_base 0x45)"
proof -
  have a: "page_aligned example_start" by (simp add: page_aligned_def example_start_def)
  have b: "page_base 0x45 = 0x40" by (simp add: page_base_def)
  have c: "spm_log (init_state (\<lambda>_. 0xFF)) = []" by (simp add: init_state_def)
  from a FlashPage_writes_page_aligned [OF a, of "0x45" "init_state (\<lambda>_. 0xFF)"]
  show ?thesis unfolding b c by (simp add: example_start_def page_ops_def)
qed

text \<open>
  C10 as stated fails on a commit of page 0: besides the write at the masked argument,
  \<^verbatim>\<open>CreateTrampoline\<close> writes the trampoline page, whose address is not the masked
  argument.
\<close>

theorem FlashPage_writes_counterexample:
  "page_ops (spm_log (FlashPage example_start 0 (init_state (\<lambda>_. 0xFF))))
     = [PageWrite 0, PageWrite 0x1A00]
   \<and> (0x1A00 :: word16) \<noteq> page_base 0"
proof -
  have b: "page_base 0 = 0" by (simp add: page_base_def)
  have c: "spm_log (init_state (\<lambda>_. 0xFF)) = []" "flashPageAddr (init_state (\<lambda>_. 0xFF)) = 0"
    by (simp_all add: init_state_def)
  show ?thesis
    unfolding FlashPage_log b c by (simp add: example_start_def page_ops_def PAGE_SIZE_def)
qed

text \<open>
  C1 (amended).  For a bootloader start address that is a non-zero multiple of the page
  size within the 8 KiB of program memory, \<^verbatim>\<open>DeleteFlash\<close> returns, and afterwards the
  first two bytes of page 0 are a relative jump to the bootloader's start, every other
  byte below the bootloader's start address is erased, the last instruction slot of
  the trampoline page included, and the bootloader's own region is untouched.
\<close>

theorem DeleteFlash_leaves:
  assumes "page_aligned T" and "T \<noteq> 0" and "T \<le> 0x2000"
  shows "\<exists>s'. DeleteFlash T s = Some s' \<and>
     is_rjmp (instruction (flash s' 0) (flash s' 1)) \<and>
     rjmp_target 0 (instruction (flash s' 0) (flash s' 1)) = ucast (T div 2) \<and>
     (\<forall>x. 2 \<le> x \<and> x < T \<longrightarrow> flash s' x = 0xFF) \<and>
     flash s' (T - 2) = 0xFF \<and> flash s' (T - 1) = 0xFF \<and>
     (\<forall>x. T \<le> x \<longrightarrow> flash s' x = flash s x)"
proof -
  from DeleteFlash_flash [OF assms(1,2), of s] obtain s' where
    r: "DeleteFlash T s = Some s'" and
    f: "\<And>x. flash s' x =
        (if x = 0 then ucast (reset_vector T AND 0xFF)
         else if x = 1 then ucast (drop_bit 8 (reset_vector T))
         else if x < T then 0xFF else flash s x)"
    by blast
  from assms(1) obtain k where k: "unat T = 64 * k" "k < 1024" by (rule aligned_unat)
  from assms(2) k have k0: "k \<noteq> 0" by (auto simp add: word_unat_eq_iff)
  with k have T64: "64 \<le> unat T" by simp
  have i: "instruction (flash s' 0) (flash s' 1) = reset_vector T"
    by (simp add: f instruction_of_word)
  have lo: "flash s' x = 0xFF" if "2 \<le> x \<and> x < T" for x
  proof -
    from that have "x \<noteq> 0" "x \<noteq> 1" by (auto simp add: word_le_nat_alt)
    with that show ?thesis by (simp add: f)
  qed
  have hi: "flash s' x = flash s x" if "T \<le> x" for x
  proof -
    from that T64 have "64 \<le> unat x" by (simp add: word_le_nat_alt)
    then have "x \<noteq> 0" "x \<noteq> 1" by auto
    with that show ?thesis by (simp add: f not_less [symmetric])
  qed
  have t2: "2 \<le> T - 2 \<and> T - 2 < T"
  proof -
    from T64 have "2 \<le> T" by (simp add: word_le_nat_alt)
    then have "unat (T - 2) = unat T - 2" by (simp add: unat_sub)
    with T64 show ?thesis by (simp add: word_le_nat_alt word_less_nat_alt)
  qed
  have t1: "2 \<le> T - 1 \<and> T - 1 < T"
  proof -
    from T64 have "1 \<le> T" by (simp add: word_le_nat_alt)
    then have "unat (T - 1) = unat T - 1" by (simp add: unat_sub)
    with T64 show ?thesis by (simp add: word_le_nat_alt word_less_nat_alt)
  qed
  from r i reset_vector_valid [OF assms] lo hi lo [OF t2] lo [OF t1]
  show ?thesis by simp
qed

theorem DeleteFlash_leaves_witness:
  "page_aligned example_start \<and> example_start \<noteq> 0 \<and> example_start \<le> 0x2000 \<and>
   (\<exists>s'. DeleteFlash example_start (init_state example_flash) = Some s' \<and>
     is_rjmp (instruction (flash s' 0) (flash s' 1)) \<and>
     rjmp_target 0 (instruction (flash s' 0) (flash s' 1)) = ucast (example_start div 2) \<and>
     flash s' (example_start - 2) = 0xFF \<and> flash s' (example_start - 1) = 0xFF)"
  using example_start_ok
    DeleteFlash_leaves [OF example_start_ok, of "init_state example_flash"]
  by blast

text \<open>
  C1 as stated fails: the trampoline page is not left valid.  Its last instruction slot
  held a relative jump before the delete and holds erased cells after it, which is no
  relative jump.
\<close>

theorem DeleteFlash_trampoline_counterexample:
  "is_rjmp (instruction (example_flash 0x1A3E) (example_flash 0x1A3F)) \<and>
   DeleteFlash example_start (init_state example_flash) \<noteq> None \<and>
   \<not> is_rjmp (instruction
          (flash (the (DeleteFlash example_start (init_state example_flash))) 0x1A3E)
          (flash (the (DeleteFlash example_start (init_state example_flash))) 0x1A3F))"
proof -
  from DeleteFlash_flash [OF example_start_ok(1,2), of "init_state example_flash"]
  obtain s' where
    r: "DeleteFlash example_start (init_state example_flash) = Some s'" and
    f: "\<And>x. flash s' x =
        (if x = 0 then ucast (reset_vector example_start AND 0xFF)
         else if x = 1 then ucast (drop_bit 8 (reset_vector example_start))
         else if x < example_start then 0xFF else flash (init_state example_flash) x)"
    by blast
  have a: "flash s' 0x1A3E = 0xFF" "flash s' 0x1A3F = 0xFF"
    by (simp_all add: f example_start_def)
  have b: "is_rjmp (instruction (example_flash 0x1A3E) (example_flash 0x1A3F))"
    by (simp add: example_flash_def instruction_def is_rjmp_def)
  have c: "\<not> is_rjmp (instruction 0xFF 0xFF)"
    by (simp add: instruction_def is_rjmp_def)
  from r a b c show ?thesis by simp
qed

text \<open>
  C6 (amended).  The pass that finds the fill index at the page size, at a tick with
  neither exit nor delete pending, commits once (the page writes of one \<^verbatim>\<open>FlashPage\<close>
  call), resets the fill index to 0 and is not followed by a second commit: a pass
  that does not find the fill index at the page size leaves \<^verbatim>\<open>flashPageAddr\<close> alone.
  The commit moves \<^verbatim>\<open>flashPageAddr\<close> on by one page size, except that after a commit
  of page 0 it is exactly one page size; for an aligned address that is the same.
\<close>

theorem commit_advances:
  assumes "commit_due s"
  shows "\<exists>s'. main_pass T s = Some (Running s') \<and> pageIX s' = 0 \<and>
      flashPageAddr s' =
        (if page_base (flashPageAddr s) = 0 \<and> T \<noteq> 0 then of_nat PAGE_SIZE
         else flashPageAddr s + of_nat PAGE_SIZE) \<and>
      (page_aligned (flashPageAddr s) \<longrightarrow> flashPageAddr s' = flashPageAddr s + of_nat PAGE_SIZE) \<and>
      page_ops (spm_log s') =
        page_ops (spm_log s) @
        (if T \<le> page_base (flashPageAddr s) then []
         else if page_base (flashPageAddr s) = 0 \<and> flashPageAddr s < T - of_nat PAGE_SIZE
              then [PageWrite 0, PageWrite (T - of_nat PAGE_SIZE)]
         else [PageWrite (page_base (flashPageAddr s))]) \<and>
      \<not> commit_due s' \<and>
      (\<forall>s2 s3. unat (pageIX s2) \<noteq> PAGE_SIZE \<and> main_pass T s2 = Some (Running s3)
         \<longrightarrow> flashPageAddr s3 = flashPageAddr s2)"
proof -
  let ?s1 = "s\<lparr>i2cDly := i2cDly s - 1, led := \<not> led s\<rparr>"
  let ?f = "FlashPage T (flashPageAddr s) ?s1"
  let ?s' = "?f\<lparr>flashPageAddr := flashPageAddr ?f + of_nat PAGE_SIZE, pageIX := 0,
               i2cDly := I2CDLYTIME\<rparr>"
  have m: "main_pass T s = Some (Running ?s')" by (rule main_pass_commit [OF assms])
  have a: "flashPageAddr ?s' =
        (if page_base (flashPageAddr s) = 0 \<and> T \<noteq> 0 then of_nat PAGE_SIZE
         else flashPageAddr s + of_nat PAGE_SIZE)"
    by (simp add: FlashPage_flashPageAddr)
  have b: "flashPageAddr ?s' = flashPageAddr s + of_nat PAGE_SIZE" if "page_aligned (flashPageAddr s)"
    using page_base_aligned [OF that] by (auto simp add: a)
  have l: "page_ops (spm_log ?s') =
        page_ops (spm_log s) @
        (if T \<le> page_base (flashPageAddr s) then []
         else if page_base (flashPageAddr s) = 0 \<and> flashPageAddr s < T - of_nat PAGE_SIZE
              then [PageWrite 0, PageWrite (T - of_nat PAGE_SIZE)]
         else [PageWrite (page_base (flashPageAddr s))])"
    by (simp add: FlashPage_log)
  have n: "\<not> commit_due ?s'" by (simp add: commit_due_def PAGE_SIZE_def)
  have o: "flashPageAddr s3 = flashPageAddr s2"
    if "unat (pageIX s2) \<noteq> PAGE_SIZE \<and> main_pass T s2 = Some (Running s3)" for s2 s3
    using that main_pass_flashPageAddr [of T s2 s3] by blast
  have p: "pageIX ?s' = 0" by simp
  from m p a b l n o show ?thesis by blast
qed

theorem commit_advances_witness:
  "commit_due full_page_state \<and> page_aligned (flashPageAddr full_page_state) \<and>
   (\<exists>s'. main_pass example_start full_page_state = Some (Running s') \<and> pageIX s' = 0 \<and>
         flashPageAddr s' = flashPageAddr full_page_state + of_nat PAGE_SIZE) \<and>
   unat (pageIX handshake_state) \<noteq> PAGE_SIZE \<and>
   main_pass example_start handshake_state
     = Some (Running (handshake_state\<lparr>i2cDly := I2CDLYTIME - 1\<rparr>)) \<and>
   flashPageAddr (handshake_state\<lparr>i2cDly := I2CDLYTIME - 1\<rparr>) = flashPageAddr handshake_state"
proof -
  have a: "page_aligned (flashPageAddr full_page_state)"
    by (simp add: full_page_state_fields page_aligned_def)
  have h: "unat (pageIX handshake_state) \<noteq> PAGE_SIZE"
    by (simp add: handshake_state_fields PAGE_SIZE_def)
  from commit_advances [OF full_page_state_due, of example_start] a
  have "\<exists>s'. main_pass example_start full_page_state = Some (Running s') \<and> pageIX s' = 0 \<and>
         flashPageAddr s' = flashPageAddr full_page_state + of_nat PAGE_SIZE"
    by blast
  with full_page_state_due a h handshake_state_pass [of example_start] show ?thesis by simp
qed

text \<open>
  C6 as stated fails on a commit of page 0 from an address that is not a multiple of the
  page size: from \<^verbatim>\<open>flashPageAddr = 1\<close> the commit leaves it at 64, not at 65.
\<close>

theorem commit_page0_counterexample:
  "reachable example_opcodes example_start unaligned_commit_state \<and>
   commit_due unaligned_commit_state \<and> flashPageAddr unaligned_commit_state = 1 \<and>
   main_pass example_start unaligned_commit_state \<noteq> None \<and>
   flashPageAddr (state_of (the (main_pass example_start unaligned_commit_state))) = 64 \<and>
   (64 :: word16) \<noteq> 1 + of_nat PAGE_SIZE"
proof -
  have "page_base 1 = 0" by (simp add: page_base_def)
  then show ?thesis
    using unaligned_commit_state_reachable unaligned_commit_state_due
    by (simp add: main_pass_commit [OF unaligned_commit_state_due] FlashPage_flashPageAddr
        unaligned_commit_state_fields example_start_def PAGE_SIZE_def)
qed

text \<open>
  C2 (amended).  A \<^verbatim>\<open>WRITPAGE\<close> frame that arrives while the page buffer has room for
  its \<^verbatim>\<open>RXDATASIZE\<close> data bytes is answered with the ack byte (the complement of the
  operation code) followed by the 8-bit sum of the data bytes, however many bytes are
  buffered already.  When that sum differs from the frame's last byte, \<open>ApplicationReady\<close>
  is clear and \<open>DeleteFlashRequested\<close> is set afterwards; when it agrees, the status
  register is as it was.  Without that room the loop of line 289 stores outside
  \<^verbatim>\<open>pageBuffer\<close>, and the source defines neither a reply nor a status.
\<close>

theorem WritePageChunk_checksum:
  assumes "opcodes_distinct oc" and "command s 0 = WRITPAGE oc"
  shows "(unat (pageIX s) + RXDATASIZE \<le> PAGE_SIZE \<longrightarrow>
      (\<exists>s'. RequestEvent oc T s = Some s' \<and>
         tx s' = tx s @ [NOT (WRITPAGE oc), chunk_sum s] \<and>
         (chunk_sum s \<noteq> command s (RXDATASIZE + 1) \<longrightarrow>
            \<not> ApplicationReady s' \<and> DeleteFlashRequested s') \<and>
         (chunk_sum s = command s (RXDATASIZE + 1) \<longrightarrow>
            statusRegister s' = statusRegister s))) \<and>
    (\<not> unat (pageIX s) + RXDATASIZE \<le> PAGE_SIZE \<longrightarrow> RequestEvent oc T s = None)"
proof (intro conjI impI)
  assume "unat (pageIX s) + RXDATASIZE \<le> PAGE_SIZE"
  from RequestEvent_WRITPAGE(1) [OF assms this, of T] obtain s' where
    r: "RequestEvent oc T s = Some s'" and
    t: "tx s' = tx s @ [NOT (WRITPAGE oc), chunk_sum s]" and
    st: "statusRegister s' =
         (if chunk_sum s \<noteq> command s (RXDATASIZE + 1)
          then (statusRegister s AND NOT (bit_mask SR_APP_READY)) OR bit_mask SR_DEL_FLASH
          else statusRegister s)"
    by blast
  have bad: "\<not> ApplicationReady s' \<and> DeleteFlashRequested s'"
    if "chunk_sum s \<noteq> command s (RXDATASIZE + 1)"
    using that
    by (simp add: st ApplicationReady_def DeleteFlashRequested_def bit_mask_def
        SR_APP_READY_def SR_DEL_FLASH_def bit_simps)
  have good: "statusRegister s' = statusRegister s"
    if "chunk_sum s = command s (RXDATASIZE + 1)"
    using that by (simp add: st)
  from r t bad good
  show "\<exists>s'. RequestEvent oc T s = Some s' \<and>
         tx s' = tx s @ [NOT (WRITPAGE oc), chunk_sum s] \<and>
         (chunk_sum s \<noteq> command s (RXDATASIZE + 1) \<longrightarrow>
            \<not> ApplicationReady s' \<and> DeleteFlashRequested s') \<and>
         (chunk_sum s = command s (RXDATASIZE + 1) \<longrightarrow>
            statusRegister s' = statusRegister s)"
    by blast
next
  assume "\<not> unat (pageIX s) + RXDATASIZE \<le> PAGE_SIZE"
  then show "RequestEvent oc T s = None" by (rule RequestEvent_WRITPAGE(2) [OF assms])
qed

theorem WritePageChunk_checksum_witness:
  "opcodes_distinct example_opcodes \<and>
   command bad_chunk_state 0 = WRITPAGE example_opcodes \<and>
   unat (pageIX bad_chunk_state) + RXDATASIZE \<le> PAGE_SIZE \<and>
   chunk_sum bad_chunk_state \<noteq> command bad_chunk_state (RXDATASIZE + 1) \<and>
   (\<exists>s'. RequestEvent example_opcodes example_start bad_chunk_state = Some s' \<and>
      tx s' = [0x7A, 36] \<and> \<not> ApplicationReady s' \<and> DeleteFlashRequested s') \<and>
   (\<exists>r. ReceiveEvent good_chunk eight_chunks_state = Some r \<and>
      command r 0 = WRITPAGE example_opcodes \<and>
      \<not> unat (pageIX r) + RXDATASIZE \<le> PAGE_SIZE \<and>
      RequestEvent example_opcodes example_start r = None)"
proof -
  from ninth_chunk_received obtain r where
    r: "ReceiveEvent good_chunk eight_chunks_state = Some r"
    and cr: "command r 0 = WRITPAGE example_opcodes" and pr: "pageIX r = 64"
    by blast
  have full: "\<not> unat (pageIX r) + RXDATASIZE \<le> PAGE_SIZE"
    by (simp add: pr RXDATASIZE_def PAGE_SIZE_def)
  from WritePageChunk_checksum [OF example_opcodes_distinct cr, of example_start] full
  have "RequestEvent example_opcodes example_start r = None" by blast
  with r cr full have f: "\<exists>r. ReceiveEvent good_chunk eight_chunks_state = Some r \<and>
      command r 0 = WRITPAGE example_opcodes \<and>
      \<not> unat (pageIX r) + RXDATASIZE \<le> PAGE_SIZE \<and>
      RequestEvent example_opcodes example_start r = None" by blast
  have c: "command bad_chunk_state 0 = WRITPAGE example_opcodes"
    by (simp add: bad_chunk_state_fields example_opcode_values)
  have room: "unat (pageIX bad_chunk_state) + RXDATASIZE \<le> PAGE_SIZE"
    by (simp add: bad_chunk_state_fields RXDATASIZE_def PAGE_SIZE_def)
  have k: "chunk_sum bad_chunk_state \<noteq> command bad_chunk_state (RXDATASIZE + 1)"
    unfolding bad_chunk_state_fields by simp
  have n: "NOT (WRITPAGE example_opcodes) = 0x7A" by (simp add: example_opcode_values)
  from WritePageChunk_checksum [OF example_opcodes_distinct c, of example_start] room k
  have "\<exists>s'. RequestEvent example_opcodes example_start bad_chunk_state = Some s' \<and>
      tx s' = tx bad_chunk_state @ [NOT (WRITPAGE example_opcodes), chunk_sum bad_chunk_state] \<and>
      \<not> ApplicationReady s' \<and> DeleteFlashRequested s'"
    by blast
  then have "\<exists>s'. RequestEvent example_opcodes example_start bad_chunk_state = Some s' \<and>
      tx s' = [0x7A, 36] \<and> \<not> ApplicationReady s' \<and> DeleteFlashRequested s'"
    unfolding n bad_chunk_state_fields by simp
  with example_opcodes_distinct c room k f show ?thesis by blast
qed

text \<open>
  C2 as stated fails where it says "regardless of how many bytes were already
  buffered": after eight chunks from power-on the page buffer is full, and a ninth
  frame, with a correct checksum, makes line 289 store at \<^verbatim>\<open>pageBuffer[64]\<close>.  The source
  defines no reply and no status for it.
\<close>

theorem WritePageChunk_full_buffer_counterexample:
  "\<exists>r. ReceiveEvent good_chunk eight_chunks_state = Some r \<and>
     reachable example_opcodes example_start r \<and>
     command r 0 = WRITPAGE example_opcodes \<and>
     chunk_sum r = command r (RXDATASIZE + 1) \<and>
     unat (pageIX r) = PAGE_SIZE \<and>
     RequestEvent example_opcodes example_start r = None"
proof -
  from ninth_chunk_received obtain r where
    r: "ReceiveEvent good_chunk eight_chunks_state = Some r"
    and c: "command r 0 = WRITPAGE example_opcodes"
    and k: "chunk_sum r = command r (RXDATASIZE + 1)"
    and p: "pageIX r = 64" and re: "reachable example_opcodes example_start r"
    by blast
  have u: "unat (pageIX r) = PAGE_SIZE" by (simp add: p PAGE_SIZE_def)
  then have "\<not> unat (pageIX r) + RXDATASIZE \<le> PAGE_SIZE" by (simp add: RXDATASIZE_def)
  from RequestEvent_WRITPAGE(2) [OF example_opcodes_distinct c this]
  have "RequestEvent example_opcodes example_start r = None" .
  with r re c k u show ?thesis by blast
qed

text \<open>
  C7 (amended).  The fill index stays within 0 and the page size in every state the
  program reaches without storing outside its arrays.  Receiving a frame leaves the
  index alone, a request changes it only for \<^verbatim>\<open>WRITPAGE\<close>, by the chunk size, a pass of
  the supervisor leaves it alone or sets it to 0, and the pass that commits a full
  buffer sets it to 0.  The dispatcher does not check the index: a \<^verbatim>\<open>WRITPAGE\<close> request
  has a defined result exactly when the buffer has room for the chunk.
\<close>

theorem pageIX_bounded:
  assumes "reachable oc T s"
  shows "unat (pageIX s) \<le> PAGE_SIZE \<and>
    (\<forall>bs s'. ReceiveEvent bs s = Some s' \<longrightarrow> pageIX s' = pageIX s) \<and>
    (\<forall>s'. RequestEvent oc T s = Some s' \<longrightarrow>
       pageIX s' = pageIX s \<or>
       (command s 0 = WRITPAGE oc \<and> pageIX s' = pageIX s + of_nat RXDATASIZE \<and>
        unat (pageIX s') \<le> PAGE_SIZE)) \<and>
    (opcodes_distinct oc \<and> command s 0 = WRITPAGE oc \<longrightarrow>
       ((\<exists>s'. RequestEvent oc T s = Some s') \<longleftrightarrow>
        unat (pageIX s) + RXDATASIZE \<le> PAGE_SIZE)) \<and>
    (\<forall>s'. main_pass T s = Some (Running s') \<longrightarrow> pageIX s' = pageIX s \<or> pageIX s' = 0) \<and>
    (commit_due s \<longrightarrow> (\<exists>s'. main_pass T s = Some (Running s') \<and> pageIX s' = 0))"
proof (intro conjI)
  from assms show "unat (pageIX s) \<le> PAGE_SIZE"
    unfolding reachable_def by (rule reachable_pageIX)
  show "\<forall>bs s'. ReceiveEvent bs s = Some s' \<longrightarrow> pageIX s' = pageIX s"
    by (blast dest: ReceiveEvent_fields(2))
  show "\<forall>s'. RequestEvent oc T s = Some s' \<longrightarrow>
       pageIX s' = pageIX s \<or>
       (command s 0 = WRITPAGE oc \<and> pageIX s' = pageIX s + of_nat RXDATASIZE \<and>
        unat (pageIX s') \<le> PAGE_SIZE)"
  proof (intro allI impI)
    fix s' assume q: "RequestEvent oc T s = Some s'"
    from RequestEvent_pageIX [OF q] pageIX_chunk_fits [of s]
    show "pageIX s' = pageIX s \<or>
       (command s 0 = WRITPAGE oc \<and> pageIX s' = pageIX s + of_nat RXDATASIZE \<and>
        unat (pageIX s') \<le> PAGE_SIZE)"
      by (auto simp add: RXDATASIZE_def)
  qed
  show "opcodes_distinct oc \<and> command s 0 = WRITPAGE oc \<longrightarrow>
       ((\<exists>s'. RequestEvent oc T s = Some s') \<longleftrightarrow>
        unat (pageIX s) + RXDATASIZE \<le> PAGE_SIZE)"
    using paced_writes_defined [of oc T s] by (simp add: paced_writes_def)
  show "\<forall>s'. main_pass T s = Some (Running s') \<longrightarrow> pageIX s' = pageIX s \<or> pageIX s' = 0"
    by (blast dest: main_pass_pageIX)
  show "commit_due s \<longrightarrow> (\<exists>s'. main_pass T s = Some (Running s') \<and> pageIX s' = 0)"
    by (simp add: main_pass_commit)
qed

theorem pageIX_bounded_witness:
  "reachable example_opcodes example_start full_page_state \<and>
   commit_due full_page_state \<and>
   unat (pageIX full_page_state) \<le> PAGE_SIZE \<and>
   (\<exists>s'. main_pass example_start full_page_state = Some (Running s') \<and> pageIX s' = 0) \<and>
   (\<exists>r. ReceiveEvent good_chunk handshake_state = Some r \<and>
      reachable example_opcodes example_start r \<and>
      opcodes_distinct example_opcodes \<and> command r 0 = WRITPAGE example_opcodes \<and>
      unat (pageIX r) + RXDATASIZE \<le> PAGE_SIZE \<and>
      (\<exists>s'. RequestEvent example_opcodes example_start r = Some s' \<and>
         pageIX s' = pageIX r + of_nat RXDATASIZE \<and> unat (pageIX s') \<le> PAGE_SIZE))"
proof -
  from first_chunk_received obtain r where
    r: "ReceiveEvent good_chunk handshake_state = Some r"
    and c: "command r 0 = WRITPAGE example_opcodes" and p: "pageIX r = 0"
    and re: "reachable example_opcodes example_start r" by blast
  have room: "unat (pageIX r) + RXDATASIZE \<le> PAGE_SIZE"
    by (simp add: p RXDATASIZE_def PAGE_SIZE_def)
  note t = pageIX_bounded [OF re]
  from t example_opcodes_distinct c room obtain s' where
    q: "RequestEvent example_opcodes example_start r = Some s'" by blast
  from t q have "pageIX s' = pageIX r \<or>
       (command r 0 = WRITPAGE example_opcodes \<and> pageIX s' = pageIX r + of_nat RXDATASIZE \<and>
        unat (pageIX s') \<le> PAGE_SIZE)" by blast
  moreover have "pageIX s' = pageIX r + 8"
    by (rule RequestEvent_WRITPAGE_pageIX [OF example_opcodes_distinct c q])
  ultimately have "pageIX s' = pageIX r + of_nat RXDATASIZE \<and> unat (pageIX s') \<le> PAGE_SIZE"
    by (auto simp add: p RXDATASIZE_def)
  with r re c room q example_opcodes_distinct
  have b: "\<exists>r. ReceiveEvent good_chunk handshake_state = Some r \<and>
      reachable example_opcodes example_start r \<and>
      opcodes_distinct example_opcodes \<and> command r 0 = WRITPAGE example_opcodes \<and>
      unat (pageIX r) + RXDATASIZE \<le> PAGE_SIZE \<and>
      (\<exists>s'. RequestEvent example_opcodes example_start r = Some s' \<and>
         pageIX s' = pageIX r + of_nat RXDATASIZE \<and> unat (pageIX s') \<le> PAGE_SIZE)"
    by blast
  from full_page_state_reachable full_page_state_due pageIX_bounded [OF full_page_state_reachable]
  have a: "unat (pageIX full_page_state) \<le> PAGE_SIZE \<and>
   (\<exists>s'. main_pass example_start full_page_state = Some (Running s') \<and> pageIX s' = 0)"
    by blast
  from a b full_page_state_reachable full_page_state_due show ?thesis by blast
qed

text \<open>
  C7 as stated fails in that nothing keeps the index within the page size: after eight
  chunks from power-on the index is at the page size, no commit follows (before the
  handshake the supervisor never commits), and the first store of a ninth chunk is
  \<^verbatim>\<open>pageBuffer[64]\<close>, outside the array.  The source defines no state after it, and so no
  bound on the index.
\<close>

theorem pageIX_overrun_counterexample:
  "reachable example_opcodes example_start eight_chunks_state \<and>
   unat (pageIX eight_chunks_state) = PAGE_SIZE \<and>
   \<not> Initialized eight_chunks_state \<and>
   WRITPAGE_step 1 (Some (0, eight_chunks_state)) = None \<and>
   exchange example_opcodes example_start good_chunk eight_chunks_state = None"
proof -
  have u: "unat (pageIX eight_chunks_state) = PAGE_SIZE"
    by (simp add: eight_chunks_state_run PAGE_SIZE_def)
  have i: "\<not> Initialized eight_chunks_state"
    by (simp add: Initialized_status eight_chunks_state_run)
  have w: "WRITPAGE_step 1 (Some (0, eight_chunks_state)) = None"
    by (simp add: WRITPAGE_step_def u)
  from eight_chunks_state_reachable u i w ninth_chunk show ?thesis by blast
qed

text \<open>
  C9 (amended).  \<^verbatim>\<open>flashPageAddr\<close> is a multiple of the page size in every state the
  program reaches without storing outside its arrays (no frame longer than
  \<^verbatim>\<open>command\<close>, no \<^verbatim>\<open>WRITPAGE\<close> without room in the page buffer) and while the master
  sends \<^verbatim>\<open>STPGADDR\<close> only with addresses whose low six bits are clear.  \<^verbatim>\<open>STPGADDR\<close>
  itself stores the two address bytes as they come, high byte first, without masking:
  right after it \<^verbatim>\<open>flashPageAddr\<close> is a multiple of the page size exactly when the low
  address byte has its low six bits clear.
\<close>

theorem flashPageAddr_aligned:
  assumes "reachable_if (aligned_requests oc) oc T s"
  shows "page_aligned (flashPageAddr s) \<and>
    (opcodes_distinct oc \<and> command s 0 = STPGADDR oc \<longrightarrow>
       (\<exists>s'. RequestEvent oc T s = Some s' \<and>
          flashPageAddr s' = push_bit 8 (ucast (command s 1)) + ucast (command s 2) \<and>
          (page_aligned (flashPageAddr s') \<longleftrightarrow> command s 2 AND 63 = 0)))"
proof
  from assms show "page_aligned (flashPageAddr s)" by (rule reachable_aligned)
  show "opcodes_distinct oc \<and> command s 0 = STPGADDR oc \<longrightarrow>
       (\<exists>s'. RequestEvent oc T s = Some s' \<and>
          flashPageAddr s' = push_bit 8 (ucast (command s 1)) + ucast (command s 2) \<and>
          (page_aligned (flashPageAddr s') \<longleftrightarrow> command s 2 AND 63 = 0))"
  proof
    assume a: "opcodes_distinct oc \<and> command s 0 = STPGADDR oc"
    then have d: "opcodes_distinct oc" and c: "command s 0 = STPGADDR oc" by simp_all
    from RequestEvent_STPGADDR [OF d c, of T] obtain s' where
      q: "RequestEvent oc T s = Some s'"
      and f: "flashPageAddr s' = push_bit 8 (ucast (command s 1)) + ucast (command s 2)"
      by blast
    have "page_aligned (flashPageAddr s') \<longleftrightarrow> command s 2 AND 63 = 0"
      unfolding f by (rule STPGADDR_aligned)
    with q f show "\<exists>s'. RequestEvent oc T s = Some s' \<and>
          flashPageAddr s' = push_bit 8 (ucast (command s 1)) + ucast (command s 2) \<and>
          (page_aligned (flashPageAddr s') \<longleftrightarrow> command s 2 AND 63 = 0)"
      by blast
  qed
qed

theorem flashPageAddr_aligned_witness:
  "\<exists>r. ReceiveEvent [0x84, 0x1A, 0x40] handshake_state = Some r \<and>
     reachable_if (aligned_requests example_opcodes) example_opcodes example_start r \<and>
     opcodes_distinct example_opcodes \<and> command r 0 = STPGADDR example_opcodes \<and>
     page_aligned (flashPageAddr r) \<and>
     (\<exists>s'. RequestEvent example_opcodes example_start r = Some s' \<and>
        flashPageAddr s' = 0x1A40 \<and> page_aligned (flashPageAddr s'))"
proof -
  from aligned_address_received obtain r where
    r: "ReceiveEvent [0x84, 0x1A, 0x40] handshake_state = Some r"
    and c: "command r 0 = STPGADDR example_opcodes" "command r 1 = 0x1A" "command r 2 = 0x40"
    and re: "reachable_if (aligned_requests example_opcodes) example_opcodes example_start r"
    by blast
  have v: "push_bit 8 (ucast (0x1A :: byte)) + ucast (0x40 :: byte) = (0x1A40 :: word16)"
    "(0x40 :: byte) AND 63 = 0"
    by simp_all
  from flashPageAddr_aligned [OF re] example_opcodes_distinct c(1)
  have "page_aligned (flashPageAddr r) \<and>
     (\<exists>s'. RequestEvent example_opcodes example_start r = Some s' \<and>
        flashPageAddr s' = 0x1A40 \<and> page_aligned (flashPageAddr s'))"
    unfolding c v by blast
  with r re example_opcodes_distinct c(1) show ?thesis by blast
qed

text \<open>
  C9 as stated fails: after the handshake, \<^verbatim>\<open>STPGADDR\<close> with the address \<^verbatim>\<open>0x0001\<close>
  leaves \<^verbatim>\<open>flashPageAddr\<close> at 1.
\<close>

theorem flashPageAddr_unaligned_counterexample:
  "reachable example_opcodes example_start unaligned_address_state \<and>
   flashPageAddr unaligned_address_state = 1 \<and>
   \<not> page_aligned (flashPageAddr unaligned_address_state)"
  using unaligned_address_state_reachable
  by (simp add: unaligned_address_state_fields page_aligned_def)




text \<open>
  C5 (amended).  The main loop takes its second branch, the one that runs the tick,
  exactly when both \<^verbatim>\<open>SR_INIT_1\<close> (set by \<^verbatim>\<open>INITTINY\<close>) and \<^verbatim>\<open>SR_INIT_2\<close> (set by
  \<^verbatim>\<open>GETTMNLV\<close>) are set, and its first branch, the pre-init blinking and exit countdown,
  otherwise.  The two commands set the flags in either order, one of them alone does
  not; a request sets a flag exactly when it is the flag's command, and nothing clears
  one: not a request, not a received frame, not a pass of the main loop (as long as no
  handler stores outside its array).  Time alone never makes the device Initialized.
  But a device that is not Initialized does not stay so indefinitely: left alone, the
  main loop runs the exit countdown down and hands control to the application, with one
  flag set as with none.
\<close>

theorem Initialized_two_step:
  assumes "opcodes_distinct oc"
  shows
    "(\<exists>s1 s2. exchange oc T [INITTINY oc] s = Some s1 \<and>
        exchange oc T [GETTMNLV oc] s1 = Some s2 \<and> Initialized s2) \<and>
     (\<exists>s1 s2. exchange oc T [GETTMNLV oc] s = Some s1 \<and>
        exchange oc T [INITTINY oc] s1 = Some s2 \<and> Initialized s2) \<and>
     \<not> Initialized (init_state fl) \<and>
     (\<exists>s1. exchange oc T [INITTINY oc] (init_state fl) = Some s1 \<and> \<not> Initialized s1) \<and>
     (\<exists>s1. exchange oc T [GETTMNLV oc] (init_state fl) = Some s1 \<and> \<not> Initialized s1) \<and>
     (\<forall>s'. RequestEvent oc T s = Some s' \<longrightarrow>
        (InitStep1 s' \<longleftrightarrow> InitStep1 s \<or> command s 0 = INITTINY oc) \<and>
        (InitStep2 s' \<longleftrightarrow> InitStep2 s \<or> command s 0 = GETTMNLV oc)) \<and>
     (\<forall>bs s'. ReceiveEvent bs s = Some s' \<longrightarrow>
        (InitStep1 s' \<longleftrightarrow> InitStep1 s) \<and> (InitStep2 s' \<longleftrightarrow> InitStep2 s)) \<and>
     (\<forall>out. main_pass T s = Some out \<longrightarrow>
        (InitStep1 (state_of out) \<longleftrightarrow> InitStep1 s) \<and> (InitStep2 (state_of out) \<longleftrightarrow> InitStep2 s)) \<and>
     (InitStep1 s \<and> InitStep2 s \<longrightarrow>
        main_pass T s =
          (if i2cDly s = 0 then tick T (s\<lparr>i2cDly := i2cDly s - 1\<rparr>)
           else Some (Running (s\<lparr>i2cDly := i2cDly s - 1\<rparr>)))) \<and>
     (\<not> (InitStep1 s \<and> InitStep2 s) \<longrightarrow>
        main_pass T s =
          (if ledToggleTimer s = 0xFFFF then
             (if exitDly s = 0
              then Some (Handoff (s\<lparr>ledToggleTimer := 0, led := \<not> led s,
                                    exitDly := exitDly s - 1\<rparr>))
              else Some (Running (s\<lparr>ledToggleTimer := 0, led := \<not> led s,
                                    exitDly := exitDly s - 1\<rparr>)))
           else Some (Running (s\<lparr>ledToggleTimer := ledToggleTimer s + 1\<rparr>)))) \<and>
     (\<forall>s'. idle_passes T s s' \<longrightarrow> (Initialized s' \<longleftrightarrow> Initialized s)) \<and>
     (\<not> Initialized s \<longrightarrow> (\<exists>s' s''. idle_passes T s s' \<and> main_pass T s' = Some (Handoff s'')))"
proof -
  note a1 = handshake_either_order(1) [OF assms, of T s]
  note a2 = handshake_either_order(2) [OF assms, of T s]
  have a3: "\<not> Initialized (init_state fl)" by (simp add: Initialized_def init_state_flags)
  note a4 = one_command_alone(1) [OF assms, of T fl]
  note a5 = one_command_alone(2) [OF assms, of T fl]
  have b: "\<forall>s'. RequestEvent oc T s = Some s' \<longrightarrow>
        (InitStep1 s' \<longleftrightarrow> InitStep1 s \<or> command s 0 = INITTINY oc) \<and>
        (InitStep2 s' \<longleftrightarrow> InitStep2 s \<or> command s 0 = GETTMNLV oc)"
    using RequestEvent_init_flags [OF assms, of T s] by blast
  have c: "\<forall>bs s'. ReceiveEvent bs s = Some s' \<longrightarrow>
        (InitStep1 s' \<longleftrightarrow> InitStep1 s) \<and> (InitStep2 s' \<longleftrightarrow> InitStep2 s)"
    using ReceiveEvent_init_flags [of _ s] by blast
  have m: "\<forall>out. main_pass T s = Some out \<longrightarrow>
        (InitStep1 (state_of out) \<longleftrightarrow> InitStep1 s) \<and> (InitStep2 (state_of out) \<longleftrightarrow> InitStep2 s)"
    using main_pass_init_flags [of T s] by blast
  have p: "InitStep1 s \<and> InitStep2 s \<longrightarrow>
        main_pass T s =
          (if i2cDly s = 0 then tick T (s\<lparr>i2cDly := i2cDly s - 1\<rparr>)
           else Some (Running (s\<lparr>i2cDly := i2cDly s - 1\<rparr>)))"
    using main_pass_Initialized [of s T] by (simp add: Initialized_def)
  have q: "\<not> (InitStep1 s \<and> InitStep2 s) \<longrightarrow>
        main_pass T s =
          (if ledToggleTimer s = 0xFFFF then
             (if exitDly s = 0
              then Some (Handoff (s\<lparr>ledToggleTimer := 0, led := \<not> led s,
                                    exitDly := exitDly s - 1\<rparr>))
              else Some (Running (s\<lparr>ledToggleTimer := 0, led := \<not> led s,
                                    exitDly := exitDly s - 1\<rparr>)))
           else Some (Running (s\<lparr>ledToggleTimer := ledToggleTimer s + 1\<rparr>)))"
    using main_pass_Uninitialized [of s T] unfolding Initialized_def by blast
  have i: "\<forall>s'. idle_passes T s s' \<longrightarrow> (Initialized s' \<longleftrightarrow> Initialized s)"
    using idle_passes_Initialized [of T s] by blast
  have h: "\<not> Initialized s \<longrightarrow> (\<exists>s' s''. idle_passes T s s' \<and> main_pass T s' = Some (Handoff s''))"
    using Uninitialized_hands_off [of s T] by blast
  from a1 a2 a3 a4 a5 b c m p q i h show ?thesis by blast
qed

theorem Initialized_two_step_witness:
  "opcodes_distinct example_opcodes \<and>
   InitStep1 one_flag_state \<and> \<not> InitStep2 one_flag_state \<and> \<not> Initialized one_flag_state \<and>
   main_pass example_start one_flag_state
     = Some (Running (one_flag_state\<lparr>ledToggleTimer := 1\<rparr>)) \<and>
   InitStep1 (one_flag_state\<lparr>ledToggleTimer := 1\<rparr>) \<and>
   \<not> InitStep2 (one_flag_state\<lparr>ledToggleTimer := 1\<rparr>) \<and>
   idle_passes example_start one_flag_state one_flag_expired_state \<and>
   \<not> Initialized one_flag_expired_state \<and>
   (\<exists>s' s''. idle_passes example_start one_flag_state s' \<and>
      main_pass example_start s' = Some (Handoff s'')) \<and>
   InitStep1 handshake_state \<and> InitStep2 handshake_state \<and>
   main_pass example_start handshake_state
     = Some (Running (handshake_state\<lparr>i2cDly := I2CDLYTIME - 1\<rparr>)) \<and>
   (\<exists>s'. exchange example_opcodes example_start [0x82] one_flag_state = Some s' \<and>
      Initialized s')"
proof -
  note t = Initialized_two_step [OF example_opcodes_distinct, of example_start one_flag_state
      example_flash]
  note u = Initialized_two_step [OF example_opcodes_distinct, of example_start handshake_state
      example_flash]
  note f = one_flag_state_flags
  have hf: "InitStep1 handshake_state" "InitStep2 handshake_state"
    by (simp_all add: flags_of_status handshake_state_fields)
  from t f have p: "main_pass example_start one_flag_state
     = Some (Running (one_flag_state\<lparr>ledToggleTimer := 1\<rparr>))"
    by (simp add: one_flag_state_fields)
  from t p have g: "InitStep1 (one_flag_state\<lparr>ledToggleTimer := 1\<rparr>) \<and>
      \<not> InitStep2 (one_flag_state\<lparr>ledToggleTimer := 1\<rparr>)"
    using f by (metis state_of.simps(1))
  have x: "idle_passes example_start one_flag_state one_flag_expired_state"
    by (rule one_flag_state_expires)
  from t x f(3) have e: "\<not> Initialized one_flag_expired_state" by blast
  from t f(3)
  have h: "\<exists>s' s''. idle_passes example_start one_flag_state s' \<and>
      main_pass example_start s' = Some (Handoff s'')" by blast
  from u hf have k: "main_pass example_start handshake_state
     = Some (Running (handshake_state\<lparr>i2cDly := I2CDLYTIME - 1\<rparr>))"
    by (simp add: handshake_state_fields I2CDLYTIME_def)
  from handshake_state_run(1) obtain s' where
    q: "exchange example_opcodes example_start [0x82] one_flag_state = Some s'"
    by (auto split: option.splits)
  from q obtain s1 where r1: "ReceiveEvent [0x82] one_flag_state = Some s1"
    and q1: "RequestEvent example_opcodes example_start s1 = Some s'" by (rule exchange_Some)
  note v = Initialized_two_step [OF example_opcodes_distinct, of example_start s1 example_flash]
  from ReceiveEvent_fields(14) [OF r1, of 0]
  have c: "command s1 0 = GETTMNLV example_opcodes" by (simp add: example_opcode_values)
  from t r1 f have "InitStep1 s1" by blast
  with v q1 c have "Initialized s'" unfolding Initialized_def by blast
  with q have l: "\<exists>s'. exchange example_opcodes example_start [0x82] one_flag_state = Some s' \<and>
      Initialized s'" by blast
  from example_opcodes_distinct f p g x e h hf k l show ?thesis by blast
qed

text \<open>
  C5 as stated fails where it says that a device with one flag set remains
  Uninitialized indefinitely: after \<^verbatim>\<open>INITTINY\<close> alone, passes of the main loop with no
  bus activity reach the state in which the toggle timer is at \<^verbatim>\<open>TOGGLETIME\<close> and the
  exit countdown at 0, and the next pass calls \<^verbatim>\<open>RunApplication\<close>.
\<close>

theorem one_flag_timeout_counterexample:
  "reachable example_opcodes example_start one_flag_state \<and>
   InitStep1 one_flag_state \<and> \<not> InitStep2 one_flag_state \<and>
   idle_passes example_start one_flag_state one_flag_expired_state \<and>
   InitStep1 one_flag_expired_state \<and> \<not> InitStep2 one_flag_expired_state \<and>
   main_pass example_start one_flag_expired_state =
     Some (Handoff (one_flag_expired_state\<lparr>ledToggleTimer := 0,
       led := \<not> led one_flag_expired_state, exitDly := 0xFF\<rparr>))"
  using one_flag_state_reachable one_flag_state_flags(1,2) one_flag_state_expires
    one_flag_expired_state_flags(1,2) one_flag_expired_state_pass [of example_start]
  by blast

end
